theory Spec2Isabelle
  imports Complex_Main "HOL-Library.Multiset"
begin

section \<open>AtomicSynchronizer: the triple-buffer index exchange\<close>

text \<open>
  The five index variables and the two registration counters of
  \<^verbatim>\<open>class AtomicSynchronizer\<close> (AtomicSynchronizer.h). All of them are C++
  \<^verbatim>\<open>int\<close> (three of them \<^verbatim>\<open>std::atomic<int>\<close>); the only values ever stored
  are -1, 0, 1, 2 for the indices and 0, 1 for the counters, so no overflow arises
  and \<^typ>\<open>int\<close> is used. The value -1 marks an empty slot.
\<close>

record AtomicSynchronizer =
  readyToReadIndex :: int
  readyToWriteIndex :: int
  readyToWriteIndex2 :: int
  writerIndex :: int
  readerIndex :: int
  nWriters :: int
  nReaders :: int

subsection \<open>The atomic primitives\<close>

text \<open>
  \<^verbatim>\<open>std::atomic<int>::exchange(v)\<close> on a cell holding \<open>a\<close>: returns the old
  content and leaves \<open>v\<close> in the cell. The pair is (returned value, new content).
\<close>

definition exchange :: "int \<Rightarrow> int \<Rightarrow> int \<times> int" where
  "exchange a v = (a, v)"

text \<open>
  \<^verbatim>\<open>compare_exchange_strong(expected, desired)\<close> on a cell holding \<open>a\<close>:
  succeeds and stores \<open>desired\<close> iff the cell holds \<open>expected\<close>. The pair is
  (success, new content).
\<close>

definition compare_exchange_strong :: "int \<Rightarrow> int \<Rightarrow> int \<Rightarrow> bool \<times> int" where
  "compare_exchange_strong a expected desired =
     (if a = expected then (True, desired) else (False, a))"

subsection \<open>Registration\<close>

definition checkoutWriter :: "AtomicSynchronizer \<Rightarrow> bool \<times> AtomicSynchronizer" where
  "checkoutWriter s =
     (let (ok, c) = compare_exchange_strong (nWriters s) 0 1
      in if \<not> ok then (False, s\<lparr>nWriters := c\<rparr>) else (True, s\<lparr>nWriters := c\<rparr>))"

definition returnWriter :: "AtomicSynchronizer \<Rightarrow> AtomicSynchronizer" where
  "returnWriter s = s\<lparr>nWriters := 0\<rparr>"

definition checkoutReader :: "AtomicSynchronizer \<Rightarrow> bool \<times> AtomicSynchronizer" where
  "checkoutReader s =
     (let (ok, c) = compare_exchange_strong (nReaders s) 0 1
      in if \<not> ok then (False, s\<lparr>nReaders := c\<rparr>) else (True, s\<lparr>nReaders := c\<rparr>))"

definition returnReader :: "AtomicSynchronizer \<Rightarrow> AtomicSynchronizer" where
  "returnReader s = s\<lparr>nReaders := 0\<rparr>"

subsection \<open>pushWrite and updateReaderIndex\<close>

text \<open>
  \<^verbatim>\<open>pushWrite\<close> has an \<^verbatim>\<open>assert(writerIndex != -1)\<close> on entry and one on
  exit. A failing assertion is the result \<open>None\<close>.
\<close>

definition pushWrite :: "AtomicSynchronizer \<Rightarrow> AtomicSynchronizer option" where
  "pushWrite s =
     (if writerIndex s = -1 then None
      else
        let (w1, r1) = exchange (readyToReadIndex s) (writerIndex s);
            s1 = s\<lparr>readyToReadIndex := r1, writerIndex := w1\<rparr>;
            s3 =
              (if writerIndex s1 = -1 then
                 let (w2, a2) = exchange (readyToWriteIndex s1) (-1);
                     s2 = s1\<lparr>readyToWriteIndex := a2, writerIndex := w2\<rparr>
                 in
                   if writerIndex s2 = -1 then
                     let (w3, b3) = exchange (readyToWriteIndex2 s2) (-1)
                     in s2\<lparr>readyToWriteIndex2 := b3, writerIndex := w3\<rparr>
                   else s2
               else s1)
        in if writerIndex s3 = -1 then None else Some s3)"

definition updateReaderIndex :: "AtomicSynchronizer \<Rightarrow> AtomicSynchronizer" where
  "updateReaderIndex s =
     (if readyToReadIndex s \<noteq> -1 then
        let s2 =
              (if readerIndex s \<noteq> -1 then
                 let (ok, a1) = compare_exchange_strong (readyToWriteIndex s) (-1) (readerIndex s);
                     s1 = s\<lparr>readyToWriteIndex := a1\<rparr>
                 in
                   if \<not> ok then
                     let (old, b1) = exchange (readyToWriteIndex2 s1) (readerIndex s1)
                     in s1\<lparr>readyToWriteIndex2 := b1\<rparr>
                   else s1
               else s);
            (r, c) = exchange (readyToReadIndex s2) (-1)
        in s2\<lparr>readyToReadIndex := c, readerIndex := r\<rparr>
      else s)"

definition hasUpdate :: "AtomicSynchronizer \<Rightarrow> bool" where
  "hasUpdate s = (readyToReadIndex s \<noteq> -1)"

subsection \<open>ScopedLockout and reset\<close>

text \<open>
  A \<^verbatim>\<open>ScopedLockout\<close> tries both registrations (the reader's first: the members
  are initialised in declaration order) and its destructor gives back exactly those it
  obtained. The \<^verbatim>\<open>owner\<close> pointer of every scoped object is the synchronizer that
  is passed along explicitly.
\<close>

record ScopedLockout =
  hasReadLock :: bool
  hasWriteLock :: bool
  lockout_valid :: bool

definition ScopedLockout_ctor :: "AtomicSynchronizer \<Rightarrow> ScopedLockout \<times> AtomicSynchronizer" where
  "ScopedLockout_ctor s =
     (let (hr, s1) = checkoutReader s;
          (hw, s2) = checkoutWriter s1
      in (\<lparr>hasReadLock = hr, hasWriteLock = hw, lockout_valid = (hr \<and> hw)\<rparr>, s2))"

definition ScopedLockout_dtor :: "ScopedLockout \<Rightarrow> AtomicSynchronizer \<Rightarrow> AtomicSynchronizer" where
  "ScopedLockout_dtor l s =
     (let s1 = (if hasReadLock l then returnReader s else s)
      in if hasWriteLock l then returnWriter s1 else s1)"

definition reset :: "AtomicSynchronizer \<Rightarrow> bool \<times> AtomicSynchronizer" where
  "reset s =
     (let (lock, s1) = ScopedLockout_ctor s
      in if \<not> lockout_valid lock then (False, ScopedLockout_dtor lock s1)
         else
           (True,
            ScopedLockout_dtor lock
              (s1\<lparr>readyToReadIndex := -1,
                  readyToWriteIndex := 0,
                  readyToWriteIndex2 := 1,
                  writerIndex := 2,
                  readerIndex := -1\<rparr>)))"

text \<open>
  The constructor zeroes the two counters and calls \<^verbatim>\<open>reset()\<close>; the five indices
  are uninitialised before that, which the argument \<open>g\<close> (any memory content) stands for.
\<close>

definition AtomicSynchronizer_ctor :: "AtomicSynchronizer \<Rightarrow> AtomicSynchronizer" where
  "AtomicSynchronizer_ctor g = snd (reset (g\<lparr>nReaders := 0, nWriters := 0\<rparr>))"

definition pristine :: AtomicSynchronizer where
  "pristine =
     \<lparr>readyToReadIndex = -1, readyToWriteIndex = 0, readyToWriteIndex2 = 1,
      writerIndex = 2, readerIndex = -1, nWriters = 0, nReaders = 0\<rparr>"

subsection \<open>The population invariant\<close>

text \<open>
  The indices held by the five variables, leaving out the empty ones, as a multiset.
\<close>

definition held :: "AtomicSynchronizer \<Rightarrow> int multiset" where
  "held s =
     mset (filter (\<lambda>i. i \<noteq> -1)
       [writerIndex s, readerIndex s, readyToReadIndex s, readyToWriteIndex s,
        readyToWriteIndex2 s])"

definition population :: "AtomicSynchronizer \<Rightarrow> bool" where
  "population s = (held s = {#0, 1, 2#})"

subsection \<open>ScopedWriteIndex and ScopedReadIndex\<close>

text \<open>
  The scoped index objects hold the \<^verbatim>\<open>owner\<close> pointer and the flag
  \<^verbatim>\<open>valid\<close>. The owner is the synchronizer passed to each function, so the flag is
  the only field. The conversion \<^verbatim>\<open>operator int()\<close> is \<open>_int\<close>.
\<close>

record ScopedWriteIndex =
  write_valid :: bool

record ScopedReadIndex =
  read_valid :: bool

definition ScopedWriteIndex_ctor :: "AtomicSynchronizer \<Rightarrow> ScopedWriteIndex \<times> AtomicSynchronizer" where
  "ScopedWriteIndex_ctor s = (let (v, s1) = checkoutWriter s in (\<lparr>write_valid = v\<rparr>, s1))"

definition ScopedWriteIndex_dtor :: "ScopedWriteIndex \<Rightarrow> AtomicSynchronizer \<Rightarrow> AtomicSynchronizer" where
  "ScopedWriteIndex_dtor h s = (if write_valid h then returnWriter s else s)"

definition ScopedWriteIndex_pushUpdate ::
  "ScopedWriteIndex \<Rightarrow> AtomicSynchronizer \<Rightarrow> AtomicSynchronizer option" where
  "ScopedWriteIndex_pushUpdate h s = (if write_valid h then pushWrite s else Some s)"

definition ScopedWriteIndex_int :: "ScopedWriteIndex \<Rightarrow> AtomicSynchronizer \<Rightarrow> int" where
  "ScopedWriteIndex_int h s = (if write_valid h then writerIndex s else -1)"

definition ScopedReadIndex_ctor :: "AtomicSynchronizer \<Rightarrow> ScopedReadIndex \<times> AtomicSynchronizer" where
  "ScopedReadIndex_ctor s =
     (let (v, s1) = checkoutReader s
      in if v then (\<lparr>read_valid = v\<rparr>, updateReaderIndex s1) else (\<lparr>read_valid = v\<rparr>, s1))"

definition ScopedReadIndex_dtor :: "ScopedReadIndex \<Rightarrow> AtomicSynchronizer \<Rightarrow> AtomicSynchronizer" where
  "ScopedReadIndex_dtor h s = (if read_valid h then returnReader s else s)"

definition ScopedReadIndex_pullUpdate ::
  "ScopedReadIndex \<Rightarrow> AtomicSynchronizer \<Rightarrow> AtomicSynchronizer" where
  "ScopedReadIndex_pullUpdate h s = (if read_valid h then updateReaderIndex s else s)"

definition ScopedReadIndex_int :: "ScopedReadIndex \<Rightarrow> AtomicSynchronizer \<Rightarrow> int" where
  "ScopedReadIndex_int h s = (if read_valid h then readerIndex s else -1)"

subsection \<open>Sequences of pushUpdate and pullUpdate\<close>

datatype sync_op = PushUpdate | PullUpdate

fun apply_op ::
  "ScopedWriteIndex \<Rightarrow> ScopedReadIndex \<Rightarrow> sync_op \<Rightarrow> AtomicSynchronizer \<Rightarrow> AtomicSynchronizer option"
where
  "apply_op w r PushUpdate s = ScopedWriteIndex_pushUpdate w s"
| "apply_op w r PullUpdate s = Some (ScopedReadIndex_pullUpdate r s)"

fun run_ops ::
  "ScopedWriteIndex \<Rightarrow> ScopedReadIndex \<Rightarrow> sync_op list \<Rightarrow> AtomicSynchronizer \<Rightarrow> AtomicSynchronizer option"
where
  "run_ops w r [] s = Some s"
| "run_ops w r (x # xs) s =
     (case apply_op w r x s of None \<Rightarrow> None | Some s' \<Rightarrow> run_ops w r xs s')"

text \<open>
  A freshly constructed synchronizer on which one writer and one reader register, in
  either order (\<open>writer_first\<close>).
\<close>

definition register_both ::
  "bool \<Rightarrow> AtomicSynchronizer \<Rightarrow> ScopedWriteIndex \<times> ScopedReadIndex \<times> AtomicSynchronizer" where
  "register_both writer_first g =
     (let s0 = AtomicSynchronizer_ctor g
      in if writer_first then
           (let (w, s1) = ScopedWriteIndex_ctor s0; (r, s2) = ScopedReadIndex_ctor s1
            in (w, r, s2))
         else
           (let (r, s1) = ScopedReadIndex_ctor s0; (w, s2) = ScopedWriteIndex_ctor s1
            in (w, r, s2)))"

subsection \<open>AtomicallyShared and its read pointer\<close>

record 'a AtomicallyShared =
  data :: "'a list"
  sync :: AtomicSynchronizer

record ScopedReadPtr =
  ind :: ScopedReadIndex
  ptr_valid :: bool

definition AtomicallyShared_hasUpdate :: "'a AtomicallyShared \<Rightarrow> bool" where
  "AtomicallyShared_hasUpdate sh = hasUpdate (sync sh)"

definition ScopedReadPtr_ctor :: "'a AtomicallyShared \<Rightarrow> ScopedReadPtr \<times> 'a AtomicallyShared" where
  "ScopedReadPtr_ctor sh =
     (let (i, s1) = ScopedReadIndex_ctor (sync sh)
      in (\<lparr>ind = i, ptr_valid = (ScopedReadIndex_int i s1 \<noteq> -1)\<rparr>, sh\<lparr>sync := s1\<rparr>))"

definition ScopedReadPtr_pullUpdate ::
  "ScopedReadPtr \<Rightarrow> 'a AtomicallyShared \<Rightarrow> ScopedReadPtr \<times> 'a AtomicallyShared" where
  "ScopedReadPtr_pullUpdate p sh =
     (let s1 = ScopedReadIndex_pullUpdate (ind p) (sync sh)
      in (p\<lparr>ptr_valid := (ScopedReadIndex_int (ind p) s1 \<noteq> -1)\<rparr>, sh\<lparr>sync := s1\<rparr>))"

definition ScopedReadPtr_isValid :: "ScopedReadPtr \<Rightarrow> bool" where
  "ScopedReadPtr_isValid p = ptr_valid p"

text \<open>\<open>n\<close> calls of \<^verbatim>\<open>pullUpdate()\<close> on a read pointer, one after the other.\<close>

fun pull_times ::
  "nat \<Rightarrow> ScopedReadPtr \<Rightarrow> 'a AtomicallyShared \<Rightarrow> ScopedReadPtr \<times> 'a AtomicallyShared" where
  "pull_times 0 p sh = (p, sh)"
| "pull_times (Suc n) p sh = (let (p1, sh1) = ScopedReadPtr_pullUpdate p sh in pull_times n p1 sh1)"

text \<open>
  The states a synchronizer can be in when no \<^verbatim>\<open>pushUpdate\<close> has occurred: it was
  constructed, and since then only the other methods ran (registration and release, the
  reader's \<^verbatim>\<open>updateReaderIndex\<close>, \<^verbatim>\<open>reset\<close>), in any order and number. The
  scoped objects call exactly these, so every history of handles without a push ends in
  such a state.
\<close>

inductive never_pushed :: "AtomicSynchronizer \<Rightarrow> bool" where
  np_ctor: "never_pushed (AtomicSynchronizer_ctor g)"
| np_checkoutWriter: "never_pushed s \<Longrightarrow> never_pushed (snd (checkoutWriter s))"
| np_returnWriter: "never_pushed s \<Longrightarrow> never_pushed (returnWriter s)"
| np_checkoutReader: "never_pushed s \<Longrightarrow> never_pushed (snd (checkoutReader s))"
| np_returnReader: "never_pushed s \<Longrightarrow> never_pushed (returnReader s)"
| np_updateReaderIndex: "never_pushed s \<Longrightarrow> never_pushed (updateReaderIndex s)"
| np_reset: "never_pushed s \<Longrightarrow> never_pushed (snd (reset s))"

subsection \<open>Interleaved execution of one writer and one reader\<close>

text \<open>
  Inside \<^verbatim>\<open>pushWrite\<close> and \<^verbatim>\<open>updateReaderIndex\<close> every access to a shared
  variable is one atomic operation. A step of a thread is one such access together with
  the thread's own bookkeeping up to its next shared access (the assignment of the
  result to the private \<^verbatim>\<open>writerIndex\<close> or \<^verbatim>\<open>readerIndex\<close>, the tests on
  them). The program position of each thread is recorded: the writer is outside
  \<^verbatim>\<open>pushWrite\<close> or before its first or second attempt to claim an index; the reader
  is outside \<^verbatim>\<open>updateReaderIndex\<close>, before the compare-and-swap that parks its
  index, before the fallback exchange, or before the exchange that takes the new index.
  The atomic operations of the two threads happen one after the other in a single
  order; what \<^verbatim>\<open>std::memory_order_relaxed\<close> would allow beyond that is outside
  this model. The lemmas \<open>writer_until_idle_pushWrite\<close> and
  \<open>reader_until_idle_updateReaderIndex\<close> show that a thread running its steps
  alone computes \<open>pushWrite\<close> and \<open>updateReaderIndex\<close>.
\<close>

datatype writer_pos = W_idle | W_claim | W_claim2

datatype reader_pos = R_idle | R_park | R_park2 | R_take

record config =
  mem :: AtomicSynchronizer
  writer_at :: writer_pos
  reader_at :: reader_pos

text \<open>A failed assertion of \<^verbatim>\<open>pushWrite\<close> is \<open>None\<close>.\<close>

definition writer_step :: "config \<Rightarrow> config option" where
  "writer_step c =
     (let s = mem c in
      case writer_at c of
        W_idle \<Rightarrow>
          if writerIndex s = -1 then None
          else
            let (w1, r1) = exchange (readyToReadIndex s) (writerIndex s);
                s1 = s\<lparr>readyToReadIndex := r1, writerIndex := w1\<rparr>
            in Some (c\<lparr>mem := s1, writer_at := (if writerIndex s1 = -1 then W_claim else W_idle)\<rparr>)
      | W_claim \<Rightarrow>
          let (w2, a2) = exchange (readyToWriteIndex s) (-1);
              s2 = s\<lparr>readyToWriteIndex := a2, writerIndex := w2\<rparr>
          in Some (c\<lparr>mem := s2, writer_at := (if writerIndex s2 = -1 then W_claim2 else W_idle)\<rparr>)
      | W_claim2 \<Rightarrow>
          let (w3, b3) = exchange (readyToWriteIndex2 s) (-1);
              s3 = s\<lparr>readyToWriteIndex2 := b3, writerIndex := w3\<rparr>
          in if writerIndex s3 = -1 then None else Some (c\<lparr>mem := s3, writer_at := W_idle\<rparr>))"

definition reader_step :: "config \<Rightarrow> config" where
  "reader_step c =
     (let s = mem c in
      case reader_at c of
        R_idle \<Rightarrow>
          if readyToReadIndex s \<noteq> -1 then
            (if readerIndex s \<noteq> -1 then c\<lparr>reader_at := R_park\<rparr> else c\<lparr>reader_at := R_take\<rparr>)
          else c
      | R_park \<Rightarrow>
          let (ok, a1) = compare_exchange_strong (readyToWriteIndex s) (-1) (readerIndex s);
              s1 = s\<lparr>readyToWriteIndex := a1\<rparr>
          in c\<lparr>mem := s1, reader_at := (if \<not> ok then R_park2 else R_take)\<rparr>
      | R_park2 \<Rightarrow>
          let (old, b1) = exchange (readyToWriteIndex2 s) (readerIndex s)
          in c\<lparr>mem := s\<lparr>readyToWriteIndex2 := b1\<rparr>, reader_at := R_take\<rparr>
      | R_take \<Rightarrow>
          let (r, c1) = exchange (readyToReadIndex s) (-1)
          in c\<lparr>mem := s\<lparr>readyToReadIndex := c1, readerIndex := r\<rparr>, reader_at := R_idle\<rparr>)"

text \<open>
  A schedule says which thread takes the next step. A step of an idle thread begins a
  new call of its operation, so a schedule is an interleaving of any number of
  \<^verbatim>\<open>pushUpdate\<close> calls of the writer with any number of \<^verbatim>\<open>pullUpdate\<close> calls
  of the reader, the last call of each possibly unfinished.
\<close>

datatype thread = Writer | Reader

fun thread_step :: "thread \<Rightarrow> config \<Rightarrow> config option" where
  "thread_step Writer c = writer_step c"
| "thread_step Reader c = Some (reader_step c)"

fun interleave :: "thread list \<Rightarrow> config \<Rightarrow> config option" where
  "interleave [] c = Some c"
| "interleave (t # ts) c =
     (case thread_step t c of None \<Rightarrow> None | Some c' \<Rightarrow> interleave ts c')"

text \<open>A thread running alone until it is idle again, in at most \<open>n\<close> steps.\<close>

fun writer_until_idle :: "nat \<Rightarrow> config \<Rightarrow> config option" where
  "writer_until_idle 0 c = Some c"
| "writer_until_idle (Suc n) c =
     (case writer_step c of
        None \<Rightarrow> None
      | Some c' \<Rightarrow> if writer_at c' = W_idle then Some c' else writer_until_idle n c')"

fun reader_until_idle :: "nat \<Rightarrow> config \<Rightarrow> config" where
  "reader_until_idle 0 c = c"
| "reader_until_idle (Suc n) c =
     (let c' = reader_step c in if reader_at c' = R_idle then c' else reader_until_idle n c')"

definition start_config :: "bool \<Rightarrow> AtomicSynchronizer \<Rightarrow> config" where
  "start_config writer_first g =
     (case register_both writer_first g of
        (w, r, s) \<Rightarrow> \<lparr>mem = s, writer_at = W_idle, reader_at = R_idle\<rparr>)"

text \<open>
  The index the reader holds: once it has parked its index and before it takes the new
  one, it holds none (the private variable still shows the parked value).
\<close>

definition reader_holds :: "config \<Rightarrow> int" where
  "reader_holds c = (if reader_at c = R_take then -1 else readerIndex (mem c))"

definition held_in :: "config \<Rightarrow> int multiset" where
  "held_in c =
     mset (filter (\<lambda>i. i \<noteq> -1)
       [writerIndex (mem c), reader_holds c, readyToReadIndex (mem c),
        readyToWriteIndex (mem c), readyToWriteIndex2 (mem c)])"

text \<open>The five variables of the synchronizer hold each index once, the reader's
  read through \<open>reader_holds\<close>.\<close>

definition populated :: "config \<Rightarrow> bool" where
  "populated c = (held_in c = {#0, 1, 2#})"

text \<open>
  What holds of every configuration the two threads can reach: the indices are all
  there, the writer holds one exactly when it is outside \<^verbatim>\<open>pushWrite\<close>, its
  second attempt finds the second slot filled, the reader is inside
  \<^verbatim>\<open>updateReaderIndex\<close> only with something ready to read, and the reader's
  fallback slot is free when it gets there.
\<close>

definition config_inv :: "config \<Rightarrow> bool" where
  "config_inv c =
     (populated c \<and>
      ((writer_at c = W_idle) = (writerIndex (mem c) \<noteq> -1)) \<and>
      (writer_at c = W_claim2 \<longrightarrow> readyToWriteIndex2 (mem c) \<noteq> -1) \<and>
      (reader_at c \<noteq> R_idle \<longrightarrow> readyToReadIndex (mem c) \<noteq> -1) \<and>
      (reader_at c = R_park \<longrightarrow> readerIndex (mem c) \<noteq> -1) \<and>
      (reader_at c = R_park2 \<longrightarrow>
         readerIndex (mem c) \<noteq> -1 \<and> readyToWriteIndex2 (mem c) = -1))"

text \<open>The invariant of the sequences of whole operations.\<close>

definition op_inv :: "AtomicSynchronizer \<Rightarrow> bool" where
  "op_inv s = (population s \<and> writerIndex s \<noteq> -1)"

text \<open>
  A schedule run from \<open>c\<close> in which the reader never executes the exchange that
  takes the index out of \<^verbatim>\<open>readyToReadIndex\<close>.
\<close>

fun no_take :: "thread list \<Rightarrow> config \<Rightarrow> bool" where
  "no_take [] c = True"
| "no_take (t # ts) c =
     (\<not> (t = Reader \<and> reader_at c = R_take) \<and>
      (case thread_step t c of None \<Rightarrow> True | Some c' \<Rightarrow> no_take ts c'))"

section \<open>CumulativeTFR: the streaming spectral estimates\<close>

text \<open>
  The C++ \<^verbatim>\<open>double\<close> and \<^verbatim>\<open>float\<close> values are modelled as real numbers and
  \<^verbatim>\<open>std::complex<double>\<close> as complex numbers: every statement below is an
  equation of exact arithmetic, rounding is left out. The one place where the program
  divides by a number that can be zero is \<^verbatim>\<open>singleCoherence\<close>; its result, and
  everything computed from it, is a \<open>dbl\<close>: a real number, an infinity or NaN. The
  other quotients have a divisor that is tested or known to be positive.
\<close>

subsection \<open>The weighted accumulators\<close>

text \<open>
  Both accumulators declare \<^verbatim>\<open>size_t count\<close>. The right-hand side of
  \<^verbatim>\<open>count = 1 + (1 - alpha) * count\<close> is a \<^verbatim>\<open>double\<close>; the assignment
  converts it to \<^verbatim>\<open>size_t\<close>, which drops the fractional part. The conversion is
  defined in C++ for values above -1 and below \<open>2 ^ 64\<close>; there it is
  \<open>size_t_of_double\<close>.
\<close>

definition size_t_of_double :: "real \<Rightarrow> nat" where
  "size_t_of_double x = nat \<lfloor>x\<rfloor>"

definition size_t_defined :: "real \<Rightarrow> bool" where
  "size_t_defined x = (-1 < x \<and> x < 2 ^ 64)"

record RealWeightedAccum =
  r_sum :: real
  r_count :: nat
  r_alpha :: real

definition RealWeightedAccum_ctor :: "real \<Rightarrow> RealWeightedAccum" where
  "RealWeightedAccum_ctor a = \<lparr>r_sum = 0, r_count = 0, r_alpha = a\<rparr>"

definition RealWeightedAccum_getAverage :: "RealWeightedAccum \<Rightarrow> real" where
  "RealWeightedAccum_getAverage a = (if r_count a > 0 then r_sum a / real (r_count a) else 0)"

definition RealWeightedAccum_addValue :: "real \<Rightarrow> RealWeightedAccum \<Rightarrow> RealWeightedAccum" where
  "RealWeightedAccum_addValue x a =
     a\<lparr>r_sum := x + (1 - r_alpha a) * r_sum a,
       r_count := size_t_of_double (1 + (1 - r_alpha a) * real (r_count a))\<rparr>"

record ComplexWeightedAccum =
  c_sum :: complex
  c_count :: nat
  c_alpha :: real

definition ComplexWeightedAccum_ctor :: "real \<Rightarrow> ComplexWeightedAccum" where
  "ComplexWeightedAccum_ctor a = \<lparr>c_sum = 0, c_count = 0, c_alpha = a\<rparr>"

definition ComplexWeightedAccum_getAverage :: "ComplexWeightedAccum \<Rightarrow> complex" where
  "ComplexWeightedAccum_getAverage a =
     (if c_count a > 0 then c_sum a / of_real (real (c_count a)) else 0)"

definition ComplexWeightedAccum_addValue ::
  "complex \<Rightarrow> ComplexWeightedAccum \<Rightarrow> ComplexWeightedAccum" where
  "ComplexWeightedAccum_addValue x a =
     a\<lparr>c_sum := x + of_real (1 - c_alpha a) * c_sum a,
       c_count := size_t_of_double (1 + (1 - c_alpha a) * real (c_count a))\<rparr>"

text \<open>
  \<^verbatim>\<open>addValue\<close> on the accumulator \<open>a\<close> stays within what C++ defines: the new
  count can be converted.
\<close>

definition ComplexWeightedAccum_addValue_defined :: "ComplexWeightedAccum \<Rightarrow> bool" where
  "ComplexWeightedAccum_addValue_defined a =
     size_t_defined (1 + (1 - c_alpha a) * real (c_count a))"

subsection \<open>The accumulator as the specification words it\<close>

text \<open>
  The StreamingAccumulator of the specification, for comparison with the two above:
  \<open>sum = x + (1 - alpha) * sum\<close>, \<open>count = 1 + (1 - alpha) * count\<close> with a real
  \<open>count\<close>, and the average \<open>sum / count\<close> if \<open>count > 0\<close>, else zero.
\<close>

record 'a spec_accum =
  spec_sum :: 'a
  spec_count :: real
  spec_alpha :: real

definition spec_ctor :: "real \<Rightarrow> ('a :: real_normed_field) spec_accum" where
  "spec_ctor a = \<lparr>spec_sum = 0, spec_count = 0, spec_alpha = a\<rparr>"

definition spec_addValue :: "'a \<Rightarrow> ('a :: real_normed_field) spec_accum \<Rightarrow> 'a spec_accum" where
  "spec_addValue x a =
     a\<lparr>spec_sum := x + of_real (1 - spec_alpha a) * spec_sum a,
       spec_count := 1 + (1 - spec_alpha a) * spec_count a\<rparr>"

definition spec_getAverage :: "('a :: real_normed_field) spec_accum \<Rightarrow> 'a" where
  "spec_getAverage a = (if spec_count a > 0 then spec_sum a / of_real (spec_count a) else 0)"

subsection \<open>Doubles that need not be finite\<close>

text \<open>
  A \<^verbatim>\<open>double\<close> that comes out of a division by zero: a number, plus or minus
  infinity, or NaN, with the arithmetic of IEEE 754 on the three special values and
  exact arithmetic on the numbers. A zero is the positive zero (the zero divisors that
  occur are products of averages of squared moduli), so a positive number divided by
  zero is plus infinity. Zero divided by zero is NaN, and NaN absorbs every operation.
\<close>

datatype dbl = Num real | PosInf | NegInf | NaN

fun dbl_neg :: "dbl \<Rightarrow> dbl" where
  "dbl_neg (Num x) = Num (- x)"
| "dbl_neg PosInf = NegInf"
| "dbl_neg NegInf = PosInf"
| "dbl_neg NaN = NaN"

fun dbl_add :: "dbl \<Rightarrow> dbl \<Rightarrow> dbl" where
  "dbl_add (Num x) (Num y) = Num (x + y)"
| "dbl_add NaN b = NaN"
| "dbl_add a NaN = NaN"
| "dbl_add PosInf NegInf = NaN"
| "dbl_add NegInf PosInf = NaN"
| "dbl_add PosInf b = PosInf"
| "dbl_add a PosInf = PosInf"
| "dbl_add NegInf b = NegInf"
| "dbl_add a NegInf = NegInf"

definition dbl_sub :: "dbl \<Rightarrow> dbl \<Rightarrow> dbl" where
  "dbl_sub a b = dbl_add a (dbl_neg b)"

fun dbl_mul :: "dbl \<Rightarrow> dbl \<Rightarrow> dbl" where
  "dbl_mul (Num x) (Num y) = Num (x * y)"
| "dbl_mul NaN b = NaN"
| "dbl_mul a NaN = NaN"
| "dbl_mul PosInf (Num y) = (if y = 0 then NaN else if 0 < y then PosInf else NegInf)"
| "dbl_mul NegInf (Num y) = (if y = 0 then NaN else if 0 < y then NegInf else PosInf)"
| "dbl_mul (Num x) PosInf = (if x = 0 then NaN else if 0 < x then PosInf else NegInf)"
| "dbl_mul (Num x) NegInf = (if x = 0 then NaN else if 0 < x then NegInf else PosInf)"
| "dbl_mul PosInf PosInf = PosInf"
| "dbl_mul NegInf NegInf = PosInf"
| "dbl_mul PosInf NegInf = NegInf"
| "dbl_mul NegInf PosInf = NegInf"

fun dbl_div :: "dbl \<Rightarrow> dbl \<Rightarrow> dbl" where
  "dbl_div (Num x) (Num y) =
     (if y = 0 then (if x = 0 then NaN else if 0 < x then PosInf else NegInf)
      else Num (x / y))"
| "dbl_div NaN b = NaN"
| "dbl_div a NaN = NaN"
| "dbl_div (Num x) PosInf = Num 0"
| "dbl_div (Num x) NegInf = Num 0"
| "dbl_div PosInf (Num y) = (if 0 \<le> y then PosInf else NegInf)"
| "dbl_div NegInf (Num y) = (if 0 \<le> y then NegInf else PosInf)"
| "dbl_div PosInf b = NaN"
| "dbl_div NegInf b = NaN"

fun dbl_sqrt :: "dbl \<Rightarrow> dbl" where
  "dbl_sqrt (Num x) = (if x < 0 then NaN else Num (sqrt x))"
| "dbl_sqrt PosInf = PosInf"
| "dbl_sqrt NegInf = NaN"
| "dbl_sqrt NaN = NaN"

subsection \<open>The statistics accumulator of the library\<close>

text \<open>
  Modelled from the spec: \<^verbatim>\<open>RealAccum\<close> is \<^verbatim>\<open>StatisticsAccumulator<double>\<close>, a
  class of the JUCE library whose source is not among the files. It gives the mean of
  the values added to it and their variance (the mean square deviation from the mean,
  before the correction by \<open>n / (n - 1)\<close> that the caller applies); both are zero when
  nothing was added. It keeps the number of values, their sum and the sum of their
  squares, so a NaN or an infinity that is added stays in the sums.
\<close>

record RealAccum =
  ra_count :: nat
  ra_sum :: dbl
  ra_sumSquares :: dbl

definition RealAccum_ctor :: RealAccum where
  "RealAccum_ctor = \<lparr>ra_count = 0, ra_sum = Num 0, ra_sumSquares = Num 0\<rparr>"

definition RealAccum_addValue :: "dbl \<Rightarrow> RealAccum \<Rightarrow> RealAccum" where
  "RealAccum_addValue v a =
     a\<lparr>ra_count := ra_count a + 1, ra_sum := dbl_add (ra_sum a) v,
       ra_sumSquares := dbl_add (ra_sumSquares a) (dbl_mul v v)\<rparr>"

definition RealAccum_getAverage :: "RealAccum \<Rightarrow> dbl" where
  "RealAccum_getAverage a =
     (if ra_count a > 0 then dbl_div (ra_sum a) (Num (real (ra_count a))) else Num 0)"

definition RealAccum_getVariance :: "RealAccum \<Rightarrow> dbl" where
  "RealAccum_getVariance a =
     (if ra_count a > 0
      then dbl_div
             (dbl_sub (ra_sumSquares a)
                (dbl_div (dbl_mul (ra_sum a) (ra_sum a)) (Num (real (ra_count a)))))
             (Num (real (ra_count a)))
      else Num 0)"

subsection \<open>The engine\<close>

text \<open>
  The data members of \<^verbatim>\<open>class CumulativeTFR\<close>. A \<^verbatim>\<open>std::vector\<close> is a list;
  the FFT buffer is the list of its complex entries. Subscripts are \<^verbatim>\<open>int\<close> in the
  source and a subscript outside a vector is undefined behaviour there, so the functions
  below take them as natural numbers and the theorems assume the dimensions that the
  constructor sets up (\<open>dims_ok\<close>).
\<close>

record CumulativeTFR =
  nFreqs :: int
  Fs :: int
  nTimes :: int
  nfft :: int
  segmentLen :: int
  windowLen :: real
  stepLen :: real
  freqStep :: real
  freqStart :: int
  freqEnd :: int
  trimTime :: int
  spectrumBuffer :: "complex list list list"
  waveletArray :: "complex list list"
  ifftBuffer :: "complex list"
  alpha :: real
  pxys :: "ComplexWeightedAccum list list list"
  powBuffer :: "RealWeightedAccum list list list"

text \<open>
  The constructor makes \<^verbatim>\<open>spectrumBuffer\<close> and \<^verbatim>\<open>powBuffer\<close> of size
  (channels, \<^verbatim>\<open>nf\<close>, \<^verbatim>\<open>nt\<close>) and \<^verbatim>\<open>pxys\<close> of size (pairs, \<^verbatim>\<open>nf\<close>,
  \<^verbatim>\<open>nt\<close>), with \<^verbatim>\<open>nFreqs = nf\<close> and \<^verbatim>\<open>nTimes = nt\<close>.
\<close>

definition cuboid :: "nat \<Rightarrow> nat \<Rightarrow> nat \<Rightarrow> 'a list list list \<Rightarrow> bool" where
  "cuboid n nf nt xs =
     (length xs = n \<and>
      list_all (\<lambda>plane. length plane = nf \<and> list_all (\<lambda>row. length row = nt) plane) xs)"

definition dims_ok :: "CumulativeTFR \<Rightarrow> bool" where
  "dims_ok tfr =
     (0 < nFreqs tfr \<and> 0 < nTimes tfr \<and> 0 < length (powBuffer tfr) \<and>
      cuboid (length (powBuffer tfr)) (nat (nFreqs tfr)) (nat (nTimes tfr)) (powBuffer tfr) \<and>
      cuboid (length (powBuffer tfr)) (nat (nFreqs tfr)) (nat (nTimes tfr)) (spectrumBuffer tfr) \<and>
      cuboid (length (pxys tfr)) (nat (nFreqs tfr)) (nat (nTimes tfr)) (pxys tfr))"

text \<open>\<^verbatim>\<open>std::norm\<close> of a complex number: the square of its modulus.\<close>

definition std_norm :: "complex \<Rightarrow> real" where
  "std_norm z = Re z * Re z + Im z * Im z"

definition singleCoherence :: "real \<Rightarrow> real \<Rightarrow> complex \<Rightarrow> dbl" where
  "singleCoherence pxx pyy pxy = dbl_div (Num (std_norm pxy)) (Num (pxx * pyy))"

text \<open>
  \<^verbatim>\<open>getMeanCoherence\<close>. Its first pair of loops calls \<^verbatim>\<open>addValue\<close> on
  \<^verbatim>\<open>pxys[comb][f][t]\<close>, its second fills \<^verbatim>\<open>meanDest[f]\<close> and the local
  \<^verbatim>\<open>stdDest[f]\<close>. The result is the engine afterwards, the array
  \<^verbatim>\<open>meanDest\<close> afterwards, and \<^verbatim>\<open>stdDest\<close> as it is when the function returns
  (the function drops it).
\<close>

definition crss :: "CumulativeTFR \<Rightarrow> nat \<Rightarrow> nat \<Rightarrow> nat \<Rightarrow> nat \<Rightarrow> complex" where
  "crss tfr itX itY f t =
     spectrumBuffer tfr ! itX ! f ! t * cnj (spectrumBuffer tfr ! itY ! f ! t)"

definition cross_spectra ::
  "CumulativeTFR \<Rightarrow> nat \<Rightarrow> nat \<Rightarrow> nat \<Rightarrow> ComplexWeightedAccum list list list" where
  "cross_spectra tfr itX itY comb =
     (pxys tfr)[comb :=
        fold (\<lambda>f plane.
               plane[f :=
                 fold (\<lambda>t row. row[t := ComplexWeightedAccum_addValue (crss tfr itX itY f t) (row ! t)])
                   [0..<nat (nTimes tfr)] (plane ! f)])
          [0..<nat (nFreqs tfr)] (pxys tfr ! comb)]"

definition coherence_at :: "CumulativeTFR \<Rightarrow> nat \<Rightarrow> nat \<Rightarrow> nat \<Rightarrow> nat \<Rightarrow> nat \<Rightarrow> dbl" where
  "coherence_at tfr itX itY comb f t =
     singleCoherence
       (RealWeightedAccum_getAverage (powBuffer tfr ! itX ! f ! t))
       (RealWeightedAccum_getAverage (powBuffer tfr ! itY ! f ! t))
       (ComplexWeightedAccum_getAverage (pxys tfr ! comb ! f ! t))"

definition coh_accum :: "CumulativeTFR \<Rightarrow> nat \<Rightarrow> nat \<Rightarrow> nat \<Rightarrow> nat \<Rightarrow> RealAccum" where
  "coh_accum tfr itX itY comb f =
     fold (\<lambda>t coh. RealAccum_addValue (coherence_at tfr itX itY comb f t) coh)
       [0..<nat (nTimes tfr)] RealAccum_ctor"

definition getMeanCoherence ::
  "CumulativeTFR \<Rightarrow> nat \<Rightarrow> nat \<Rightarrow> dbl list \<Rightarrow> nat \<Rightarrow> CumulativeTFR \<times> dbl list \<times> dbl list" where
  "getMeanCoherence tfr itX itY meanDest comb =
     (let tfr1 = tfr\<lparr>pxys := cross_spectra tfr itX itY comb\<rparr>;
          stdDest = replicate (nat (nFreqs tfr1)) (Num 0);
          (meanDest1, stdDest1) =
            fold (\<lambda>f (md, sd).
                   let coh = coh_accum tfr1 itX itY comb f
                   in (md[f := RealAccum_getAverage coh],
                       sd[f := (if nTimes tfr1 < 2 then Num 0
                                else dbl_sqrt
                                       (dbl_div
                                          (dbl_mul (RealAccum_getVariance coh)
                                             (Num (real_of_int (nTimes tfr1))))
                                          (Num (real_of_int (nTimes tfr1 - 1)))))]))
              [0..<nat (nFreqs tfr1)] (meanDest, stdDest)
      in (tfr1, meanDest1, stdDest1))"

text \<open>
  \<^verbatim>\<open>getPowerForChannels\<close>. The cast \<^verbatim>\<open>(float)\<close> rounds in the program and is
  the identity on the reals. The local \<^verbatim>\<open>Totalpower\<close> starts at zero; the row of
  it that belongs to (\<open>chn\<close>, \<open>frq\<close>) is only touched by the innermost loop for
  that pair. The method is not declared \<^verbatim>\<open>const\<close>; the engine after the call is
  the second component of the result.
\<close>

definition float_of_double :: "real \<Rightarrow> real" where
  "float_of_double x = x"

definition power_row :: "CumulativeTFR \<Rightarrow> nat \<Rightarrow> nat \<Rightarrow> nat \<Rightarrow> real list \<times> real" where
  "power_row tfr Time chn frq =
     fold (\<lambda>pr (row, avg).
            let row1 = row[pr := row ! pr
                         + float_of_double (RealWeightedAccum_getAverage (powBuffer tfr ! chn ! frq ! pr))]
            in (row1, avg + row1 ! pr))
       [0..<Time] (replicate Time 0, 0)"

definition getPowerForChannels :: "CumulativeTFR \<Rightarrow> real list list \<times> CumulativeTFR" where
  "getPowerForChannels tfr =
     (let channels = length (powBuffer tfr);
          Frequency = length (powBuffer tfr ! 0);
          Time = length (powBuffer tfr ! 0 ! 0);
          PwrIndFreqAvg =
            fold (\<lambda>chn P.
                   P[chn :=
                     fold (\<lambda>frq Pc. Pc[frq := snd (power_row tfr Time chn frq) / real Time])
                       [0..<Frequency] (P ! chn)])
              [0..<channels] (replicate channels (replicate Frequency 0))
      in (PwrIndFreqAvg, tfr))"

text \<open>
  An engine with two channels, one pair, one frequency and two time bins, after one trial
  on each channel (\<open>alpha = 0\<close>), to run the functions on.
\<close>

definition example_tfr :: CumulativeTFR where
  "example_tfr =
     \<lparr>nFreqs = 1, Fs = 4, nTimes = 2, nfft = 4, segmentLen = 1, windowLen = 1 / 2,
      stepLen = 1 / 4, freqStep = 1, freqStart = 1, freqEnd = 1, trimTime = 0,
      spectrumBuffer = [[[1, \<i>]], [[1, 2]]],
      waveletArray = [[1, 0, 0, 0]],
      ifftBuffer = [0, 0, 0, 0],
      alpha = 0,
      pxys = [[[ComplexWeightedAccum_ctor 0, ComplexWeightedAccum_ctor 0]]],
      powBuffer =
        [[[\<lparr>r_sum = 1, r_count = 1, r_alpha = 0\<rparr>, \<lparr>r_sum = 1, r_count = 1, r_alpha = 0\<rparr>]],
         [[\<lparr>r_sum = 1, r_count = 1, r_alpha = 0\<rparr>, \<lparr>r_sum = 4, r_count = 1, r_alpha = 0\<rparr>]]]\<rparr>"


text \<open>
  An engine with three time bins, after two trials on each channel and before the first
  call of \<^verbatim>\<open>getMeanCoherence\<close>: the average power is 1 in every bin.
\<close>

definition example_tfr3 :: CumulativeTFR where
  "example_tfr3 =
     example_tfr
       \<lparr>nTimes := 3,
        spectrumBuffer := [[[0, (1 + \<i>) / 2, 1]], [[1, 1, 1]]],
        pxys := [[[ComplexWeightedAccum_ctor 0, ComplexWeightedAccum_ctor 0,
                   ComplexWeightedAccum_ctor 0]]],
        powBuffer :=
          [[[\<lparr>r_sum = 2, r_count = 2, r_alpha = 0\<rparr>, \<lparr>r_sum = 2, r_count = 2, r_alpha = 0\<rparr>,
             \<lparr>r_sum = 2, r_count = 2, r_alpha = 0\<rparr>]],
           [[\<lparr>r_sum = 2, r_count = 2, r_alpha = 0\<rparr>, \<lparr>r_sum = 2, r_count = 2, r_alpha = 0\<rparr>,
             \<lparr>r_sum = 2, r_count = 2, r_alpha = 0\<rparr>]]]\<rparr>"

subsection \<open>The engine before any data\<close>







section \<open>Properties of the synchronizer\<close>

subsection \<open>The population as a multiset of five values\<close>

lemma five_mset_iff:
  fixes a b c d e :: int
  shows "mset (filter (\<lambda>i. i \<noteq> -1) [a, b, c, d, e]) = {#0, 1, 2#}
     \<longleftrightarrow> mset [a, b, c, d, e] = {#-1, -1, 0, 1, 2#}" (is "?L \<longleftrightarrow> ?R")
proof
  assume R: ?R
  have "mset (filter (\<lambda>i. i \<noteq> -1) [a, b, c, d, e]) = filter_mset (\<lambda>i. i \<noteq> -1) (mset [a, b, c, d, e])"
    by (simp only: mset_filter)
  also have "\<dots> = {#0, 1, 2#}" unfolding R by simp
  finally show ?L .
next
  assume L: ?L
  let ?M = "mset [a, b, c, d, e]"
  have f: "filter_mset (\<lambda>i. i \<noteq> -1) ?M = {#0, 1, 2#}"
    using L by (simp only: mset_filter)
  have part: "?M = filter_mset (\<lambda>i. i \<noteq> -1) ?M + filter_mset (\<lambda>i. \<not> i \<noteq> -1) ?M"
    by (rule multiset_partition)
  have sz: "size ?M = 5" by simp
  have "size (filter_mset (\<lambda>i. \<not> i \<noteq> -1) ?M) = 2"
    using arg_cong[OF part, of size] f sz by (simp only: size_union) simp
  moreover have "filter_mset (\<lambda>i. \<not> i \<noteq> -1) ?M = replicate_mset (count ?M (-1)) (-1)"
    by (simp add: filter_eq_replicate_mset)
  ultimately have "filter_mset (\<lambda>i. \<not> i \<noteq> -1) ?M = {#-1, -1#}"
    by (simp add: numeral_2_eq_2)
  with part f show ?R by (simp only:) simp
qed

lemma empties5:
  fixes a b c d e :: int
  assumes "mset [a, b, c, d, e] = {#-1, -1, 0, 1, 2#}"
  shows "length (filter (\<lambda>i. i = -1) [a, b, c, d, e]) = 2"
proof -
  have "length (filter (\<lambda>i. i = -1) [a, b, c, d, e])
        = size (filter_mset (\<lambda>i. i = -1) (mset [a, b, c, d, e]))"
    by (simp only: mset_filter [symmetric] size_mset)
  also have "\<dots> = 2"
    unfolding assms by simp
  finally show ?thesis .
qed

lemma population_iff:
  "population s \<longleftrightarrow>
     mset [writerIndex s, readerIndex s, readyToReadIndex s, readyToWriteIndex s,
           readyToWriteIndex2 s] = {#-1, -1, 0, 1, 2#}"
  unfolding population_def held_def by (rule five_mset_iff)

lemma population_empties:
  assumes "population s"
  shows "length (filter (\<lambda>i. i = -1)
           [writerIndex s, readerIndex s, readyToReadIndex s, readyToWriteIndex s,
            readyToWriteIndex2 s]) = 2"
  using assms unfolding population_iff by (rule empties5)

text \<open>The three ways through pushWrite.\<close>

lemma pushWrite_ready:
  assumes "writerIndex s \<noteq> -1" "readyToReadIndex s \<noteq> -1"
  shows "pushWrite s = Some (s\<lparr>readyToReadIndex := writerIndex s, writerIndex := readyToReadIndex s\<rparr>)"
  using assms by (simp add: pushWrite_def exchange_def)

lemma pushWrite_first:
  assumes "writerIndex s \<noteq> -1" "readyToReadIndex s = -1" "readyToWriteIndex s \<noteq> -1"
  shows "pushWrite s = Some (s\<lparr>readyToReadIndex := writerIndex s, readyToWriteIndex := -1,
                                 writerIndex := readyToWriteIndex s\<rparr>)"
  using assms by (simp add: pushWrite_def exchange_def)

lemma pushWrite_second:
  assumes "writerIndex s \<noteq> -1" "readyToReadIndex s = -1" "readyToWriteIndex s = -1"
    "readyToWriteIndex2 s \<noteq> -1"
  shows "pushWrite s = Some (s\<lparr>readyToReadIndex := writerIndex s, readyToWriteIndex := -1,
                                 readyToWriteIndex2 := -1, writerIndex := readyToWriteIndex2 s\<rparr>)"
  using assms by (simp add: pushWrite_def exchange_def)

lemma pushWrite_population:
  assumes pop: "population s" and w: "writerIndex s \<noteq> -1"
  shows "\<exists>s'. pushWrite s = Some s' \<and> population s' \<and> writerIndex s' \<noteq> -1
            \<and> readyToReadIndex s' = writerIndex s
            \<and> nWriters s' = nWriters s \<and> nReaders s' = nReaders s"
proof (cases "readyToReadIndex s = -1")
  case False
  from pop show ?thesis
    unfolding pushWrite_ready[OF w False] population_iff
    using False by (simp add: add_mset_commute)
next
  case rtr: True
  show ?thesis
  proof (cases "readyToWriteIndex s = -1")
    case False
    from pop show ?thesis
      unfolding pushWrite_first[OF w rtr False] population_iff
      using False rtr by (simp add: add_mset_commute)
  next
    case rtw: True
    have b: "readyToWriteIndex2 s \<noteq> -1"
      using population_empties[OF pop] w rtr rtw by (simp split: if_splits)
    from pop show ?thesis
      unfolding pushWrite_second[OF w rtr rtw b] population_iff
      using b rtr rtw by (simp add: add_mset_commute)
  qed
qed

lemma updateReaderIndex_idle:
  assumes "readyToReadIndex s = -1"
  shows "updateReaderIndex s = s"
  using assms by (simp add: updateReaderIndex_def)

lemma updateReaderIndex_first:
  assumes "readyToReadIndex s \<noteq> -1" "readerIndex s = -1"
  shows "updateReaderIndex s = s\<lparr>readyToReadIndex := -1, readerIndex := readyToReadIndex s\<rparr>"
  using assms by (simp add: updateReaderIndex_def exchange_def)

lemma updateReaderIndex_park:
  assumes "readyToReadIndex s \<noteq> -1" "readerIndex s \<noteq> -1" "readyToWriteIndex s = -1"
  shows "updateReaderIndex s =
           s\<lparr>readyToWriteIndex := readerIndex s, readyToReadIndex := -1,
              readerIndex := readyToReadIndex s\<rparr>"
  using assms by (simp add: updateReaderIndex_def exchange_def compare_exchange_strong_def)

lemma updateReaderIndex_park2:
  assumes "readyToReadIndex s \<noteq> -1" "readerIndex s \<noteq> -1" "readyToWriteIndex s \<noteq> -1"
  shows "updateReaderIndex s =
           s\<lparr>readyToWriteIndex2 := readerIndex s, readyToReadIndex := -1,
              readerIndex := readyToReadIndex s\<rparr>"
  using assms by (simp add: updateReaderIndex_def exchange_def compare_exchange_strong_def)

lemma updateReaderIndex_writerIndex: "writerIndex (updateReaderIndex s) = writerIndex s"
  by (simp add: updateReaderIndex_def exchange_def compare_exchange_strong_def Let_def)

lemma updateReaderIndex_population:
  assumes pop: "population s" and w: "writerIndex s \<noteq> -1"
  shows "population (updateReaderIndex s)"
proof (cases "readyToReadIndex s = -1")
  case True
  then show ?thesis using pop by (simp add: updateReaderIndex_idle)
next
  case rtr: False
  show ?thesis
  proof (cases "readerIndex s = -1")
    case True
    from pop show ?thesis
      unfolding updateReaderIndex_first[OF rtr True] population_iff
      using True by (simp add: add_mset_commute)
  next
    case r: False
    have e: "readyToWriteIndex s = -1 \<and> readyToWriteIndex2 s = -1"
      using population_empties[OF pop] w rtr r by (simp split: if_splits)
    from pop show ?thesis
      unfolding updateReaderIndex_park[OF rtr r conjunct1[OF e]] population_iff
      using e by (simp add: add_mset_commute)
  qed
qed

lemma apply_op_inv:
  assumes "op_inv s"
  shows "\<exists>s'. apply_op w r x s = Some s' \<and> op_inv s'"
proof (cases x)
  case PushUpdate
  show ?thesis
  proof (cases "write_valid w")
    case True
    from assms pushWrite_population[of s] obtain s' where
      "pushWrite s = Some s'" "population s'" "writerIndex s' \<noteq> -1"
      unfolding op_inv_def by blast
    then show ?thesis using True PushUpdate
      by (simp add: ScopedWriteIndex_pushUpdate_def op_inv_def)
  next
    case False
    then show ?thesis using assms PushUpdate
      by (simp add: ScopedWriteIndex_pushUpdate_def)
  qed
next
  case PullUpdate
  then show ?thesis using assms updateReaderIndex_population[of s]
    by (simp add: ScopedReadIndex_pullUpdate_def op_inv_def updateReaderIndex_writerIndex)
qed

lemma run_ops_inv:
  assumes "op_inv s"
  shows "\<exists>s'. run_ops w r ops s = Some s' \<and> op_inv s'"
  using assms
proof (induction ops arbitrary: s)
  case Nil
  then show ?case by simp
next
  case (Cons x xs)
  from apply_op_inv[OF Cons.prems, of w r x] obtain s1 where
    s1: "apply_op w r x s = Some s1" "op_inv s1" by blast
  from Cons.IH[OF s1(2)] show ?case using s1(1) by simp
qed

lemma ctor_pristine: "AtomicSynchronizer_ctor g = pristine"
  by (simp add: AtomicSynchronizer_ctor_def reset_def ScopedLockout_ctor_def
      ScopedLockout_dtor_def checkoutReader_def checkoutWriter_def returnReader_def
      returnWriter_def compare_exchange_strong_def pristine_def)

lemma register_both_eq:
  "register_both wfirst g =
     (\<lparr>write_valid = True\<rparr>, \<lparr>read_valid = True\<rparr>, pristine\<lparr>nWriters := 1, nReaders := 1\<rparr>)"
  by (simp add: register_both_def ctor_pristine ScopedWriteIndex_ctor_def
      ScopedReadIndex_ctor_def checkoutReader_def checkoutWriter_def
      compare_exchange_strong_def updateReaderIndex_def pristine_def Let_def)

lemma registered_op_inv: "op_inv (pristine\<lparr>nWriters := 1, nReaders := 1\<rparr>)"
  by (simp add: op_inv_def population_def held_def pristine_def)

text \<open>
  Claim C1. A synchronizer is constructed, one writer and one reader register (in either
  order), and then any sequence of \<^verbatim>\<open>pushUpdate\<close> and \<^verbatim>\<open>pullUpdate\<close> calls
  runs, each to its end. Both handles are valid, no assertion fails on the way, and in
  the state after registration as well as in the state after the whole sequence the
  non-empty ones of the five index variables hold exactly 0, 1 and 2, each once.
  (For calls whose atomic steps interleave, the lemma \<open>interleave_population\<close> below
  gives the same in every reachable configuration, the reader's own index counted up
  to the moment it is parked.)
\<close>

theorem population_invariant:
  "case register_both writer_first g of
     (w, r, s) \<Rightarrow>
       write_valid w \<and> read_valid r \<and> population s \<and>
       (\<exists>s'. run_ops w r ops s = Some s' \<and> population s')"
proof -
  let ?s = "pristine\<lparr>nWriters := 1, nReaders := 1\<rparr>"
  from run_ops_inv[OF registered_op_inv] obtain s' where
    "run_ops \<lparr>write_valid = True\<rparr> \<lparr>read_valid = True\<rparr> ops ?s = Some s'" "op_inv s'"
    by blast
  then show ?thesis
    using registered_op_inv by (simp add: register_both_eq op_inv_def)
qed

text \<open>
  Claim C2. The writer's \<^verbatim>\<open>pushUpdate\<close> on a valid handle, called in a state that
  has the population invariant and a non-empty \<^verbatim>\<open>writerIndex\<close>: no assertion
  fails; \<^verbatim>\<open>readyToReadIndex\<close> receives the old \<^verbatim>\<open>writerIndex\<close>; the new
  \<^verbatim>\<open>writerIndex\<close> is what was ready to read if there was something, else the
  content of \<^verbatim>\<open>readyToWriteIndex\<close> if that is non-empty, else the content of
  \<^verbatim>\<open>readyToWriteIndex2\<close>; a slot the writer has tried is empty afterwards, every
  other variable is unchanged; \<^verbatim>\<open>writerIndex\<close> is not empty after the call and
  the population invariant holds again.
\<close>

theorem pushUpdate_postcondition:
  assumes valid: "write_valid w" and pop: "population s" and wi: "writerIndex s \<noteq> -1"
  shows "\<exists>s'. ScopedWriteIndex_pushUpdate w s = Some s' \<and>
           readyToReadIndex s' = writerIndex s \<and>
           writerIndex s' =
             (if readyToReadIndex s \<noteq> -1 then readyToReadIndex s
              else if readyToWriteIndex s \<noteq> -1 then readyToWriteIndex s
              else readyToWriteIndex2 s) \<and>
           readyToWriteIndex s' = (if readyToReadIndex s = -1 then -1 else readyToWriteIndex s) \<and>
           readyToWriteIndex2 s' =
             (if readyToReadIndex s = -1 \<and> readyToWriteIndex s = -1 then -1
              else readyToWriteIndex2 s) \<and>
           readerIndex s' = readerIndex s \<and>
           writerIndex s' \<noteq> -1 \<and> population s'"
proof -
  from pushWrite_population[OF pop wi] obtain s' where
    s': "pushWrite s = Some s'" "population s'" "writerIndex s' \<noteq> -1"
    by blast
  have push: "ScopedWriteIndex_pushUpdate w s = Some s'"
    using valid s'(1) by (simp add: ScopedWriteIndex_pushUpdate_def)
  have fields: "readyToReadIndex s' = writerIndex s \<and>
           writerIndex s' =
             (if readyToReadIndex s \<noteq> -1 then readyToReadIndex s
              else if readyToWriteIndex s \<noteq> -1 then readyToWriteIndex s
              else readyToWriteIndex2 s) \<and>
           readyToWriteIndex s' = (if readyToReadIndex s = -1 then -1 else readyToWriteIndex s) \<and>
           readyToWriteIndex2 s' =
             (if readyToReadIndex s = -1 \<and> readyToWriteIndex s = -1 then -1
              else readyToWriteIndex2 s) \<and>
           readerIndex s' = readerIndex s"
  proof (cases "readyToReadIndex s = -1")
    case False
    then show ?thesis using s'(1) pushWrite_ready[OF wi False] by auto
  next
    case rtr: True
    show ?thesis
    proof (cases "readyToWriteIndex s = -1")
      case False
      then show ?thesis using s'(1) pushWrite_first[OF wi rtr False] rtr by auto
    next
      case rtw: True
      have b: "readyToWriteIndex2 s \<noteq> -1"
        using population_empties[OF pop] wi rtr rtw by (simp split: if_splits)
      show ?thesis using s'(1) pushWrite_second[OF wi rtr rtw b] rtr rtw by auto
    qed
  qed
  from push fields s'(2,3) show ?thesis by blast
qed

theorem pushUpdate_postcondition_witness:
  "write_valid \<lparr>write_valid = True\<rparr> \<and>
   population \<lparr>readyToReadIndex = -1, readyToWriteIndex = -1, readyToWriteIndex2 = 1,
      writerIndex = 0, readerIndex = 2, nWriters = 1, nReaders = 1\<rparr> \<and>
   (\<exists>s'. ScopedWriteIndex_pushUpdate \<lparr>write_valid = True\<rparr>
            \<lparr>readyToReadIndex = -1, readyToWriteIndex = -1, readyToWriteIndex2 = 1,
             writerIndex = 0, readerIndex = 2, nWriters = 1, nReaders = 1\<rparr> = Some s' \<and>
          readyToReadIndex s' = 0 \<and> writerIndex s' = 1 \<and> readyToWriteIndex2 s' = -1 \<and>
          population s')"
proof -
  let ?s = "\<lparr>readyToReadIndex = -1, readyToWriteIndex = -1, readyToWriteIndex2 = 1,
             writerIndex = 0, readerIndex = 2, nWriters = 1, nReaders = 1\<rparr>"
  have h1: "write_valid \<lparr>write_valid = True\<rparr>" by simp
  have h2: "population ?s" by (simp add: population_def held_def)
  have h3: "writerIndex ?s \<noteq> -1" by simp
  from pushUpdate_postcondition[OF h1 h2 h3]
  have "\<exists>s'. ScopedWriteIndex_pushUpdate \<lparr>write_valid = True\<rparr> ?s = Some s' \<and>
          readyToReadIndex s' = 0 \<and> writerIndex s' = 1 \<and> readyToWriteIndex2 s' = -1 \<and>
          population s'"
    by auto
  with h1 h2 show ?thesis by blast
qed

lemma reset_denied:
  assumes held: "nReaders s \<noteq> 0 \<or> nWriters s \<noteq> 0"
  shows "reset s = (False, s)"
proof (cases "nReaders s = 0")
  case True
  with held have "nWriters s \<noteq> 0" by simp
  with True show ?thesis
    by (simp add: reset_def ScopedLockout_ctor_def ScopedLockout_dtor_def checkoutReader_def
        checkoutWriter_def returnReader_def compare_exchange_strong_def)
next
  case r: False
  show ?thesis
  proof (cases "nWriters s = 0")
    case True
    with r show ?thesis
      by (simp add: reset_def ScopedLockout_ctor_def ScopedLockout_dtor_def checkoutReader_def
          checkoutWriter_def returnWriter_def compare_exchange_strong_def)
  next
    case False
    with r show ?thesis
      by (simp add: reset_def ScopedLockout_ctor_def ScopedLockout_dtor_def checkoutReader_def
          checkoutWriter_def compare_exchange_strong_def)
  qed
qed

lemma reset_granted:
  assumes "nReaders s = 0" "nWriters s = 0"
  shows "reset s = (True, s\<lparr>readyToReadIndex := -1, readyToWriteIndex := 0,
                          readyToWriteIndex2 := 1, writerIndex := 2, readerIndex := -1\<rparr>)"
  using assms
  by (simp add: reset_def ScopedLockout_ctor_def ScopedLockout_dtor_def checkoutReader_def
      checkoutWriter_def returnReader_def returnWriter_def compare_exchange_strong_def)

text \<open>
  Claim C6. \<^verbatim>\<open>reset()\<close> is all or nothing. While a reader or a writer registration
  is held (its counter is not 0) the call returns false and the synchronizer is exactly
  as before: the five indices and also both counters, since the lockout gives back the
  one registration it may have obtained. With no registration held it returns true and
  the indices are those of the pristine state: nothing ready to read, 0 and 1 ready to
  write, the writer on 2, the reader on nothing; both counters are 0 again.
\<close>

theorem reset_postcondition:
  "(nReaders s \<noteq> 0 \<or> nWriters s \<noteq> 0 \<longrightarrow> reset s = (False, s)) \<and>
   (nReaders s = 0 \<and> nWriters s = 0 \<longrightarrow>
      reset s = (True, s\<lparr>readyToReadIndex := -1, readyToWriteIndex := 0,
                          readyToWriteIndex2 := 1, writerIndex := 2, readerIndex := -1\<rparr>) \<and>
      readyToReadIndex (snd (reset s)) = -1 \<and> readyToWriteIndex (snd (reset s)) = 0 \<and>
      readyToWriteIndex2 (snd (reset s)) = 1 \<and> writerIndex (snd (reset s)) = 2 \<and>
      readerIndex (snd (reset s)) = -1)"
proof (intro conjI impI)
  assume "nReaders s \<noteq> 0 \<or> nWriters s \<noteq> 0"
  then show "reset s = (False, s)" by (rule reset_denied)
next
  assume free: "nReaders s = 0 \<and> nWriters s = 0"
  then have r: "reset s = (True, s\<lparr>readyToReadIndex := -1, readyToWriteIndex := 0,
                          readyToWriteIndex2 := 1, writerIndex := 2, readerIndex := -1\<rparr>)"
    by (simp add: reset_granted)
  show "reset s = (True, s\<lparr>readyToReadIndex := -1, readyToWriteIndex := 0,
                          readyToWriteIndex2 := 1, writerIndex := 2, readerIndex := -1\<rparr>)"
    by (rule r)
  show "readyToReadIndex (snd (reset s)) = -1" by (simp add: r)
  show "readyToWriteIndex (snd (reset s)) = 0" by (simp add: r)
  show "readyToWriteIndex2 (snd (reset s)) = 1" by (simp add: r)
  show "writerIndex (snd (reset s)) = 2" by (simp add: r)
  show "readerIndex (snd (reset s)) = -1" by (simp add: r)
qed

theorem reset_postcondition_witness:
  "nReaders \<lparr>readyToReadIndex = 0, readyToWriteIndex = -1, readyToWriteIndex2 = -1,
      writerIndex = 1, readerIndex = 2, nWriters = 0, nReaders = 1\<rparr> \<noteq> 0 \<and>
   reset \<lparr>readyToReadIndex = 0, readyToWriteIndex = -1, readyToWriteIndex2 = -1,
      writerIndex = 1, readerIndex = 2, nWriters = 0, nReaders = 1\<rparr> =
     (False, \<lparr>readyToReadIndex = 0, readyToWriteIndex = -1, readyToWriteIndex2 = -1,
      writerIndex = 1, readerIndex = 2, nWriters = 0, nReaders = 1\<rparr>) \<and>
   nReaders \<lparr>readyToReadIndex = 0, readyToWriteIndex = -1, readyToWriteIndex2 = -1,
      writerIndex = 1, readerIndex = 2, nWriters = 0, nReaders = 0\<rparr> = 0 \<and>
   nWriters \<lparr>readyToReadIndex = 0, readyToWriteIndex = -1, readyToWriteIndex2 = -1,
      writerIndex = 1, readerIndex = 2, nWriters = 0, nReaders = 0\<rparr> = 0 \<and>
   reset \<lparr>readyToReadIndex = 0, readyToWriteIndex = -1, readyToWriteIndex2 = -1,
      writerIndex = 1, readerIndex = 2, nWriters = 0, nReaders = 0\<rparr> = (True, pristine)"
  using
    reset_postcondition[of "\<lparr>readyToReadIndex = 0, readyToWriteIndex = -1, readyToWriteIndex2 = -1,
      writerIndex = 1, readerIndex = 2, nWriters = 0, nReaders = 1\<rparr>"]
    reset_postcondition[of "\<lparr>readyToReadIndex = 0, readyToWriteIndex = -1, readyToWriteIndex2 = -1,
      writerIndex = 1, readerIndex = 2, nWriters = 0, nReaders = 0\<rparr>"]
  by (simp add: pristine_def)

lemma never_pushed_empty:
  assumes "never_pushed s"
  shows "readyToReadIndex s = -1 \<and> readerIndex s = -1"
  using assms
proof (induction rule: never_pushed.induct)
  case (np_ctor g)
  show ?case by (simp add: ctor_pristine pristine_def)
next
  case (np_checkoutWriter s)
  then show ?case by (simp add: checkoutWriter_def compare_exchange_strong_def)
next
  case (np_returnWriter s)
  then show ?case by (simp add: returnWriter_def)
next
  case (np_checkoutReader s)
  then show ?case by (simp add: checkoutReader_def compare_exchange_strong_def)
next
  case (np_returnReader s)
  then show ?case by (simp add: returnReader_def)
next
  case (np_updateReaderIndex s)
  then show ?case by (simp add: updateReaderIndex_idle)
next
  case (np_reset s)
  show ?case
  proof (cases "nReaders s = 0 \<and> nWriters s = 0")
    case True
    then show ?thesis by (simp add: reset_granted)
  next
    case False
    then have "reset s = (False, s)" by (simp add: reset_denied)
    then show ?thesis using np_reset.IH by simp
  qed
qed

lemma pull_times_invalid:
  assumes "readyToReadIndex (sync sh) = -1" "readerIndex (sync sh) = -1"
  shows "case pull_times n p sh of
           (p2, sh2) \<Rightarrow> (n > 0 \<longrightarrow> \<not> ptr_valid p2) \<and> (n = 0 \<longrightarrow> p2 = p) \<and> sync sh2 = sync sh"
  using assms
proof (induction n arbitrary: p sh)
  case 0
  then show ?case by simp
next
  case (Suc n)
  obtain p1 sh1 where step: "ScopedReadPtr_pullUpdate p sh = (p1, sh1)"
    by (cases "ScopedReadPtr_pullUpdate p sh")
  have u: "updateReaderIndex (sync sh) = sync sh"
    using Suc.prems by (simp add: updateReaderIndex_idle)
  have s1: "sync sh1 = sync sh" and v1: "\<not> ptr_valid p1"
    using step Suc.prems
    by (auto simp: ScopedReadPtr_pullUpdate_def ScopedReadIndex_pullUpdate_def
        ScopedReadIndex_int_def u Let_def split: if_splits)
  from Suc.IH[of sh1 p1] Suc.prems s1
  have "case pull_times n p1 sh1 of
           (p2, sh2) \<Rightarrow> (n > 0 \<longrightarrow> \<not> ptr_valid p2) \<and> (n = 0 \<longrightarrow> p2 = p1) \<and> sync sh2 = sync sh1"
    by simp
  then show ?case using step s1 v1 by (auto split: prod.splits)
qed

text \<open>
  Claim C7. On a shared object whose synchronizer has never seen a push, a newly
  constructed read pointer is invalid and \<^verbatim>\<open>readerIndex\<close> is empty, and after any
  number \<open>n\<close> of \<^verbatim>\<open>pullUpdate()\<close> calls on it the pointer is still invalid and
  \<^verbatim>\<open>readerIndex\<close> still empty.
\<close>

theorem read_before_write_invalid:
  assumes "never_pushed (sync sh)"
  shows "case ScopedReadPtr_ctor sh of
           (p, sh1) \<Rightarrow>
             \<not> ScopedReadPtr_isValid p \<and> readerIndex (sync sh1) = -1 \<and>
             (case pull_times n p sh1 of
                (p2, sh2) \<Rightarrow> \<not> ScopedReadPtr_isValid p2 \<and> readerIndex (sync sh2) = -1)"
proof -
  from never_pushed_empty[OF assms]
  have e: "readyToReadIndex (sync sh) = -1" "readerIndex (sync sh) = -1" by simp_all
  obtain p sh1 where c: "ScopedReadPtr_ctor sh = (p, sh1)"
    by (cases "ScopedReadPtr_ctor sh")
  have e1: "readyToReadIndex (sync sh1) = -1" "readerIndex (sync sh1) = -1" and v: "\<not> ptr_valid p"
    using c e
    by (auto simp: ScopedReadPtr_ctor_def ScopedReadIndex_ctor_def ScopedReadIndex_int_def
        checkoutReader_def compare_exchange_strong_def updateReaderIndex_def Let_def
        split: if_splits)
  from pull_times_invalid[OF e1, of n p]
  have "case pull_times n p sh1 of
          (p2, sh2) \<Rightarrow> \<not> ScopedReadPtr_isValid p2 \<and> readerIndex (sync sh2) = -1"
    using v e1 by (cases n) (auto simp: ScopedReadPtr_isValid_def split: prod.splits)
  then show ?thesis using c v e1 by (simp add: ScopedReadPtr_isValid_def)
qed

theorem read_before_write_invalid_witness:
  "never_pushed (sync \<lparr>data = [0, 0, 0 :: nat], sync = AtomicSynchronizer_ctor pristine\<rparr>) \<and>
   fst (ScopedReadPtr_ctor \<lparr>data = [0, 0, 0 :: nat], sync = AtomicSynchronizer_ctor pristine\<rparr>)
     = \<lparr>ind = \<lparr>read_valid = True\<rparr>, ptr_valid = False\<rparr> \<and>
   (case ScopedReadPtr_ctor \<lparr>data = [0, 0, 0 :: nat], sync = AtomicSynchronizer_ctor pristine\<rparr> of
      (p, sh1) \<Rightarrow>
        \<not> ScopedReadPtr_isValid p \<and> readerIndex (sync sh1) = -1 \<and>
        (case pull_times 2 p sh1 of
           (p2, sh2) \<Rightarrow> \<not> ScopedReadPtr_isValid p2 \<and> readerIndex (sync sh2) = -1))"
proof -
  have np: "never_pushed (sync \<lparr>data = [0, 0, 0 :: nat], sync = AtomicSynchronizer_ctor pristine\<rparr>)"
    by (simp add: np_ctor)
  have "fst (ScopedReadPtr_ctor \<lparr>data = [0, 0, 0 :: nat], sync = AtomicSynchronizer_ctor pristine\<rparr>)
     = \<lparr>ind = \<lparr>read_valid = True\<rparr>, ptr_valid = False\<rparr>"
    by (simp add: ctor_pristine pristine_def ScopedReadPtr_ctor_def ScopedReadIndex_ctor_def
        ScopedReadIndex_int_def checkoutReader_def compare_exchange_strong_def
        updateReaderIndex_def)
  with np read_before_write_invalid[OF np, of 2] show ?thesis by blast
qed

lemma held_in_iff:
  "populated c \<longleftrightarrow>
     mset [writerIndex (mem c), reader_holds c, readyToReadIndex (mem c),
           readyToWriteIndex (mem c), readyToWriteIndex2 (mem c)] = {#-1, -1, 0, 1, 2#}"
  unfolding populated_def held_in_def by (rule five_mset_iff)

lemma held_in_empties:
  assumes "populated c"
  shows "length (filter (\<lambda>i. i = -1)
           [writerIndex (mem c), reader_holds c, readyToReadIndex (mem c),
            readyToWriteIndex (mem c), readyToWriteIndex2 (mem c)]) = 2"
  using assms unfolding held_in_iff by (rule empties5)

lemma writer_step_inv:
  assumes inv: "config_inv c"
  shows "\<exists>c'. writer_step c = Some c' \<and> config_inv c'"
proof -
  from inv have h: "populated c" by (simp add: config_inv_def)
  note e = held_in_empties[OF h]
  note m = h[unfolded held_in_iff]
  show ?thesis
  proof (cases "writer_at c")
    case W_idle
    with inv have w: "writerIndex (mem c) \<noteq> -1" by (simp add: config_inv_def)
    show ?thesis
    proof (cases "readyToReadIndex (mem c) = -1")
      case True
      have "writer_step c = Some (c\<lparr>mem := (mem c)\<lparr>readyToReadIndex := writerIndex (mem c),
              writerIndex := -1\<rparr>, writer_at := W_claim\<rparr>)"
        using W_idle w True by (simp add: writer_step_def exchange_def Let_def)
      moreover have "config_inv (c\<lparr>mem := (mem c)\<lparr>readyToReadIndex := writerIndex (mem c),
              writerIndex := -1\<rparr>, writer_at := W_claim\<rparr>)"
        using inv W_idle w True m
        by (cases "reader_at c = R_take")
           (simp_all add: config_inv_def held_in_iff reader_holds_def add_mset_commute)
      ultimately show ?thesis by blast
    next
      case False
      have "writer_step c = Some (c\<lparr>mem := (mem c)\<lparr>readyToReadIndex := writerIndex (mem c),
              writerIndex := readyToReadIndex (mem c)\<rparr>, writer_at := W_idle\<rparr>)"
        using W_idle w False by (simp add: writer_step_def exchange_def Let_def)
      moreover have "config_inv (c\<lparr>mem := (mem c)\<lparr>readyToReadIndex := writerIndex (mem c),
              writerIndex := readyToReadIndex (mem c)\<rparr>, writer_at := W_idle\<rparr>)"
        using inv W_idle w False m
        by (cases "reader_at c = R_take")
           (simp_all add: config_inv_def held_in_iff reader_holds_def add_mset_commute)
      ultimately show ?thesis by blast
    qed
  next
    case W_claim
    with inv have w: "writerIndex (mem c) = -1" by (simp add: config_inv_def)
    show ?thesis
    proof (cases "readyToWriteIndex (mem c) = -1")
      case True
      have "writer_step c = Some (c\<lparr>mem := (mem c)\<lparr>readyToWriteIndex := -1,
              writerIndex := -1\<rparr>, writer_at := W_claim2\<rparr>)"
        using W_claim True by (simp add: writer_step_def exchange_def Let_def)
      moreover have b: "readyToWriteIndex2 (mem c) \<noteq> -1"
        using e w True by (simp split: if_splits)
      moreover have ra: "reader_at c \<noteq> R_park2"
        using inv b by (auto simp: config_inv_def)
      moreover have "config_inv (c\<lparr>mem := (mem c)\<lparr>readyToWriteIndex := -1,
              writerIndex := -1\<rparr>, writer_at := W_claim2\<rparr>)"
        using inv W_claim w True m b ra
        by (cases "reader_at c = R_take")
           (simp_all add: config_inv_def held_in_iff reader_holds_def add_mset_commute)
      ultimately show ?thesis by blast
    next
      case False
      have "writer_step c = Some (c\<lparr>mem := (mem c)\<lparr>readyToWriteIndex := -1,
              writerIndex := readyToWriteIndex (mem c)\<rparr>, writer_at := W_idle\<rparr>)"
        using W_claim False by (simp add: writer_step_def exchange_def Let_def)
      moreover have "config_inv (c\<lparr>mem := (mem c)\<lparr>readyToWriteIndex := -1,
              writerIndex := readyToWriteIndex (mem c)\<rparr>, writer_at := W_idle\<rparr>)"
        using inv W_claim w False m
        by (cases "reader_at c = R_take")
           (simp_all add: config_inv_def held_in_iff reader_holds_def add_mset_commute)
      ultimately show ?thesis by blast
    qed
  next
    case W_claim2
    with inv have w: "writerIndex (mem c) = -1" and b: "readyToWriteIndex2 (mem c) \<noteq> -1"
      by (simp_all add: config_inv_def)
    have "writer_step c = Some (c\<lparr>mem := (mem c)\<lparr>readyToWriteIndex2 := -1,
              writerIndex := readyToWriteIndex2 (mem c)\<rparr>, writer_at := W_idle\<rparr>)"
      using W_claim2 b by (simp add: writer_step_def exchange_def Let_def)
    moreover have ra: "reader_at c \<noteq> R_park2"
      using inv b by (auto simp: config_inv_def)
    moreover have "config_inv (c\<lparr>mem := (mem c)\<lparr>readyToWriteIndex2 := -1,
              writerIndex := readyToWriteIndex2 (mem c)\<rparr>, writer_at := W_idle\<rparr>)"
      using inv W_claim2 w b m ra
      by (cases "reader_at c = R_take")
           (simp_all add: config_inv_def held_in_iff reader_holds_def add_mset_commute)
    ultimately show ?thesis by blast
  qed
qed

lemma reader_step_inv:
  assumes inv: "config_inv c"
  shows "config_inv (reader_step c)"
proof -
  from inv have h: "populated c" by (simp add: config_inv_def)
  note e = held_in_empties[OF h]
  note m = h[unfolded held_in_iff]
  show ?thesis
  proof (cases "reader_at c")
    case R_idle
    show ?thesis
    proof (cases "readyToReadIndex (mem c) = -1")
      case True
      then have "reader_step c = c" using R_idle by (simp add: reader_step_def Let_def)
      then show ?thesis using inv by simp
    next
      case rtr: False
      show ?thesis
      proof (cases "readerIndex (mem c) = -1")
        case True
        then have "reader_step c = c\<lparr>reader_at := R_take\<rparr>"
          using R_idle rtr by (simp add: reader_step_def Let_def)
        then show ?thesis using inv R_idle rtr True m
          by (simp add: config_inv_def held_in_iff reader_holds_def)
      next
        case False
        then have "reader_step c = c\<lparr>reader_at := R_park\<rparr>"
          using R_idle rtr by (simp add: reader_step_def Let_def)
        then show ?thesis using inv R_idle rtr False m
          by (simp add: config_inv_def held_in_iff reader_holds_def)
      qed
    qed
  next
    case R_park
    with inv have r: "readerIndex (mem c) \<noteq> -1" and rtr: "readyToReadIndex (mem c) \<noteq> -1"
      by (simp_all add: config_inv_def)
    show ?thesis
    proof (cases "readyToWriteIndex (mem c) = -1")
      case True
      then have "reader_step c = c\<lparr>mem := (mem c)\<lparr>readyToWriteIndex := readerIndex (mem c)\<rparr>,
                   reader_at := R_take\<rparr>"
        using R_park by (simp add: reader_step_def compare_exchange_strong_def Let_def)
      then show ?thesis using inv R_park r rtr True m
        by (simp add: config_inv_def held_in_iff reader_holds_def add_mset_commute)
    next
      case False
      then have st: "reader_step c = c\<lparr>reader_at := R_park2\<rparr>"
        using R_park by (simp add: reader_step_def compare_exchange_strong_def Let_def)
      have "readyToWriteIndex2 (mem c) = -1"
        using e r rtr False R_park by (simp add: reader_holds_def split: if_splits)
      then show ?thesis using inv R_park r rtr False m st
        by (simp add: config_inv_def held_in_iff reader_holds_def)
    qed
  next
    case R_park2
    with inv have r: "readerIndex (mem c) \<noteq> -1" and rtr: "readyToReadIndex (mem c) \<noteq> -1"
      and b: "readyToWriteIndex2 (mem c) = -1"
      by (simp_all add: config_inv_def)
    have "reader_step c = c\<lparr>mem := (mem c)\<lparr>readyToWriteIndex2 := readerIndex (mem c)\<rparr>,
                   reader_at := R_take\<rparr>"
      using R_park2 by (simp add: reader_step_def exchange_def Let_def)
    then show ?thesis using inv R_park2 r rtr b m
      by (simp add: config_inv_def held_in_iff reader_holds_def add_mset_commute)
  next
    case R_take
    with inv have rtr: "readyToReadIndex (mem c) \<noteq> -1"
      by (simp_all add: config_inv_def)
    have "reader_step c = c\<lparr>mem := (mem c)\<lparr>readyToReadIndex := -1,
                   readerIndex := readyToReadIndex (mem c)\<rparr>, reader_at := R_idle\<rparr>"
      using R_take by (simp add: reader_step_def exchange_def Let_def)
    then show ?thesis using inv R_take rtr m
      by (simp add: config_inv_def held_in_iff reader_holds_def add_mset_commute)
  qed
qed

lemma interleave_inv:
  assumes "config_inv c"
  shows "\<exists>c'. interleave ts c = Some c' \<and> config_inv c'"
  using assms
proof (induction ts arbitrary: c)
  case Nil
  then show ?case by simp
next
  case (Cons t ts)
  have "\<exists>c1. thread_step t c = Some c1 \<and> config_inv c1"
  proof (cases t)
    case Writer
    then show ?thesis using writer_step_inv[OF Cons.prems] by simp
  next
    case Reader
    then show ?thesis using reader_step_inv[OF Cons.prems] by simp
  qed
  then obtain c1 where c1: "thread_step t c = Some c1" "config_inv c1" by blast
  from Cons.IH[OF c1(2)] c1(1) show ?case by simp
qed

lemma start_config_eq:
  "start_config wfirst g =
     \<lparr>mem = pristine\<lparr>nWriters := 1, nReaders := 1\<rparr>, writer_at = W_idle, reader_at = R_idle\<rparr>"
  by (simp add: start_config_def register_both_eq)

lemma start_config_inv: "config_inv (start_config wfirst g)"
  by (simp add: start_config_eq config_inv_def populated_def held_in_def reader_holds_def pristine_def)

lemma writer_until_idle_pushWrite:
  assumes "writer_at c = W_idle"
  shows "writer_until_idle 3 c = map_option (\<lambda>s. c\<lparr>mem := s\<rparr>) (pushWrite (mem c))"
proof -
  obtain s ra where c: "c = \<lparr>mem = s, writer_at = W_idle, reader_at = ra\<rparr>"
    using assms by (cases c) auto
  have three: "(3::nat) = Suc (Suc (Suc 0))" by simp
  show ?thesis
  proof (cases "writerIndex s = -1")
    case True
    then show ?thesis unfolding c three
      by (simp add: writer_step_def pushWrite_def)
  next
    case w: False
    show ?thesis
    proof (cases "readyToReadIndex s = -1")
      case False
      with w show ?thesis unfolding c three
        by (simp add: writer_step_def pushWrite_def exchange_def)
    next
      case rtr: True
      show ?thesis
      proof (cases "readyToWriteIndex s = -1")
        case False
        with w rtr show ?thesis unfolding c three
          by (simp add: writer_step_def pushWrite_def exchange_def)
      next
        case True
        with w rtr show ?thesis unfolding c three
          by (cases "readyToWriteIndex2 s = -1")
             (simp_all add: writer_step_def pushWrite_def exchange_def)
      qed
    qed
  qed
qed

lemma reader_until_idle_updateReaderIndex:
  assumes "reader_at c = R_idle"
  shows "reader_until_idle 4 c = c\<lparr>mem := updateReaderIndex (mem c)\<rparr>"
proof -
  obtain s wa where c: "c = \<lparr>mem = s, writer_at = wa, reader_at = R_idle\<rparr>"
    using assms by (cases c) auto
  have four: "(4::nat) = Suc (Suc (Suc (Suc 0)))" by simp
  show ?thesis
  proof (cases "readyToReadIndex s = -1")
    case True
    then show ?thesis unfolding c four
      by (simp add: reader_step_def updateReaderIndex_def)
  next
    case rtr: False
    show ?thesis
    proof (cases "readerIndex s = -1")
      case True
      with rtr show ?thesis unfolding c four
        by (simp add: reader_step_def updateReaderIndex_def exchange_def)
    next
      case r: False
      with rtr show ?thesis unfolding c four
        by (cases "readyToWriteIndex s = -1")
           (simp_all add: reader_step_def updateReaderIndex_def exchange_def
              compare_exchange_strong_def)
    qed
  qed
qed

lemma config_inv_population:
  assumes "config_inv c" "reader_at c \<noteq> R_take"
  shows "population (mem c)"
  using assms
  by (simp add: config_inv_def populated_def held_in_def reader_holds_def population_def held_def)

lemma interleave_population:
  "\<exists>c. interleave ts (start_config wfirst g) = Some c \<and> config_inv c \<and>
        (reader_at c \<noteq> R_take \<longrightarrow> population (mem c))"
  using interleave_inv[OF start_config_inv, of ts wfirst g] config_inv_population by blast

lemma writer_step_keeps_update:
  assumes inv: "config_inv c" and u: "hasUpdate (mem c)"
  shows "\<exists>c'. writer_step c = Some c' \<and> hasUpdate (mem c')"
proof -
  from writer_step_inv[OF inv] obtain c' where c': "writer_step c = Some c'" by blast
  have "hasUpdate (mem c')"
  proof (cases "writer_at c")
    case W_idle
    with inv have "writerIndex (mem c) \<noteq> -1" by (simp add: config_inv_def)
    with c' W_idle show ?thesis
      by (auto simp: writer_step_def exchange_def hasUpdate_def Let_def split: if_splits)
  next
    case W_claim
    with c' u show ?thesis
      by (auto simp: writer_step_def exchange_def hasUpdate_def Let_def split: if_splits)
  next
    case W_claim2
    with c' u show ?thesis
      by (auto simp: writer_step_def exchange_def hasUpdate_def Let_def split: if_splits)
  qed
  with c' show ?thesis by blast
qed

lemma reader_step_keeps_update:
  assumes u: "hasUpdate (mem c)" and nt: "reader_at c \<noteq> R_take"
  shows "hasUpdate (mem (reader_step c))"
  using u nt
  by (cases "reader_at c")
     (simp_all add: reader_step_def exchange_def compare_exchange_strong_def hasUpdate_def Let_def)

lemma reader_take_empties:
  assumes "reader_at c = R_take"
  shows "\<not> hasUpdate (mem (reader_step c))"
  using assms by (simp add: reader_step_def exchange_def hasUpdate_def Let_def)

lemma no_take_keeps_update:
  assumes "config_inv c" "hasUpdate (mem c)" "no_take ts c"
  shows "\<exists>c'. interleave ts c = Some c' \<and> hasUpdate (mem c')"
  using assms
proof (induction ts arbitrary: c)
  case Nil
  then show ?case by simp
next
  case (Cons t ts)
  show ?case
  proof (cases t)
    case Writer
    from writer_step_keeps_update[OF Cons.prems(1,2)] obtain c1 where
      c1: "writer_step c = Some c1" "hasUpdate (mem c1)" by blast
    from writer_step_inv[OF Cons.prems(1)] c1(1) have i1: "config_inv c1" by simp
    from Cons.prems(3) Writer c1(1) have n1: "no_take ts c1" by simp
    from Cons.IH[OF i1 c1(2) n1] show ?thesis using Writer c1(1) by simp
  next
    case Reader
    from Cons.prems(3) Reader have nt: "reader_at c \<noteq> R_take" and n1: "no_take ts (reader_step c)"
      by simp_all
    from Cons.IH[OF reader_step_inv[OF Cons.prems(1)] reader_step_keeps_update[OF Cons.prems(2) nt] n1]
    show ?thesis using Reader by simp
  qed
qed

text \<open>
  Claim C9. Take any interleaving \<open>ts\<close> of the atomic steps of one writer and one
  reader from the start, reaching \<open>c\<close> (no assertion fails on the way). If the writer
  is about to begin \<^verbatim>\<open>pushWrite\<close>, its \<^verbatim>\<open>writerIndex\<close> is not empty and the
  exchange puts that index into \<^verbatim>\<open>readyToReadIndex\<close>. If \<^verbatim>\<open>hasUpdate()\<close>
  is true in \<open>c\<close>, it is true after the writer's next step, true after the reader's
  next step unless that step is the exchange taking the index, and true at the end of
  every continuation \<open>ts'\<close> in which the reader does not execute that exchange.
\<close>

theorem ready_slot_kept:
  "\<exists>c. interleave ts (start_config writer_first g) = Some c \<and>
     (writer_at c = W_idle \<longrightarrow>
        writerIndex (mem c) \<noteq> -1 \<and>
        (\<exists>c'. writer_step c = Some c' \<and> readyToReadIndex (mem c') = writerIndex (mem c))) \<and>
     (hasUpdate (mem c) \<longrightarrow>
        (\<exists>c'. writer_step c = Some c' \<and> hasUpdate (mem c')) \<and>
        (reader_at c \<noteq> R_take \<longrightarrow> hasUpdate (mem (reader_step c))) \<and>
        (no_take ts' c \<longrightarrow> (\<exists>c'. interleave ts' c = Some c' \<and> hasUpdate (mem c'))))"
proof -
  from interleave_inv[OF start_config_inv, of ts writer_first g] obtain c where
    c: "interleave ts (start_config writer_first g) = Some c" and inv: "config_inv c"
    by blast
  have a: "writerIndex (mem c) \<noteq> -1 \<and>
        (\<exists>c'. writer_step c = Some c' \<and> readyToReadIndex (mem c') = writerIndex (mem c))"
    if idle: "writer_at c = W_idle"
  proof -
    from inv idle have w: "writerIndex (mem c) \<noteq> -1" by (simp add: config_inv_def)
    with idle show ?thesis by (simp add: writer_step_def exchange_def Let_def)
  qed
  have b: "(\<exists>c'. writer_step c = Some c' \<and> hasUpdate (mem c')) \<and>
        (reader_at c \<noteq> R_take \<longrightarrow> hasUpdate (mem (reader_step c))) \<and>
        (no_take ts' c \<longrightarrow> (\<exists>c'. interleave ts' c = Some c' \<and> hasUpdate (mem c')))"
    if u: "hasUpdate (mem c)"
    using writer_step_keeps_update[OF inv u] reader_step_keeps_update[OF u]
      no_take_keeps_update[OF inv u] by blast
  from c a b show ?thesis by blast
qed

theorem ready_slot_kept_witness:
  "(\<exists>c. interleave [Writer] (start_config True pristine) = Some c \<and>
      writer_at c = W_claim \<and> hasUpdate (mem c) \<and>
      (\<exists>c'. writer_step c = Some c' \<and> hasUpdate (mem c')) \<and>
      reader_at c \<noteq> R_take \<and> hasUpdate (mem (reader_step c)) \<and>
      no_take [Writer, Reader, Writer] c \<and>
      (\<exists>c'. interleave [Writer, Reader, Writer] c = Some c' \<and> hasUpdate (mem c'))) \<and>
   (\<exists>c. interleave [] (start_config True pristine) = Some c \<and>
      writer_at c = W_idle \<and> writerIndex (mem c) \<noteq> -1 \<and>
      (\<exists>c'. writer_step c = Some c' \<and> readyToReadIndex (mem c') = writerIndex (mem c)))"
proof -
  let ?c1 = "\<lparr>mem = \<lparr>readyToReadIndex = 2, readyToWriteIndex = 0, readyToWriteIndex2 = 1,
      writerIndex = -1, readerIndex = -1, nWriters = 1, nReaders = 1\<rparr>,
      writer_at = W_claim, reader_at = R_idle\<rparr>"
  have r1: "interleave [Writer] (start_config True pristine) = Some ?c1"
    by (simp add: start_config_eq pristine_def writer_step_def exchange_def)
  have h1: "writer_at ?c1 = W_claim" "hasUpdate (mem ?c1)" "reader_at ?c1 \<noteq> R_take"
    by (simp_all add: hasUpdate_def)
  have h2: "no_take [Writer, Reader, Writer] ?c1"
    by (simp add: writer_step_def reader_step_def exchange_def)
  from ready_slot_kept[of "[Writer]" True pristine "[Writer, Reader, Writer]"] r1 h1 h2
  have first: "\<exists>c. interleave [Writer] (start_config True pristine) = Some c \<and>
      writer_at c = W_claim \<and> hasUpdate (mem c) \<and>
      (\<exists>c'. writer_step c = Some c' \<and> hasUpdate (mem c')) \<and>
      reader_at c \<noteq> R_take \<and> hasUpdate (mem (reader_step c)) \<and>
      no_take [Writer, Reader, Writer] c \<and>
      (\<exists>c'. interleave [Writer, Reader, Writer] c = Some c' \<and> hasUpdate (mem c'))"
    by auto
  have r0: "interleave [] (start_config True pristine) = Some (start_config True pristine)"
    "writer_at (start_config True pristine) = W_idle"
    by (simp_all add: start_config_eq)
  from ready_slot_kept[of "[]" True pristine "[]"] r0
  have second: "\<exists>c. interleave [] (start_config True pristine) = Some c \<and>
      writer_at c = W_idle \<and> writerIndex (mem c) \<noteq> -1 \<and>
      (\<exists>c'. writer_step c = Some c' \<and> readyToReadIndex (mem c') = writerIndex (mem c))"
    by auto
  from first second show ?thesis by blast
qed

section \<open>Properties of the accumulators\<close>

lemma size_t_of_double_of_nat: "size_t_of_double (1 + real n) = Suc n"
proof -
  have "1 + real n = of_int (int (Suc n))" by simp
  then have "\<lfloor>1 + real n\<rfloor> = int (Suc n)" by (simp only: floor_of_int)
  then show ?thesis by (simp add: size_t_of_double_def)
qed

lemma real_fold_alpha0:
  assumes "r_alpha a = 0"
  shows "fold RealWeightedAccum_addValue xs a =
           \<lparr>r_sum = sum_list xs + r_sum a, r_count = length xs + r_count a, r_alpha = 0\<rparr>"
  using assms
proof (induction xs arbitrary: a)
  case Nil
  then show ?case by simp
next
  case (Cons x xs)
  let ?a1 = "RealWeightedAccum_addValue x a"
  have a1: "r_alpha ?a1 = 0" "r_sum ?a1 = x + r_sum a" "r_count ?a1 = Suc (r_count a)"
    using Cons.prems size_t_of_double_of_nat[of "r_count a"]
    by (simp_all add: RealWeightedAccum_addValue_def)
  show ?case using Cons.IH[OF a1(1)] a1 by (simp add: algebra_simps)
qed

lemma complex_fold_alpha0:
  assumes "c_alpha a = 0"
  shows "fold ComplexWeightedAccum_addValue zs a =
           \<lparr>c_sum = sum_list zs + c_sum a, c_count = length zs + c_count a, c_alpha = 0\<rparr>"
  using assms
proof (induction zs arbitrary: a)
  case Nil
  then show ?case by simp
next
  case (Cons z zs)
  let ?a1 = "ComplexWeightedAccum_addValue z a"
  have a1: "c_alpha ?a1 = 0" "c_sum ?a1 = z + c_sum a" "c_count ?a1 = Suc (c_count a)"
    using Cons.prems size_t_of_double_of_nat[of "c_count a"]
    by (simp_all add: ComplexWeightedAccum_addValue_def)
  show ?case using Cons.IH[OF a1(1)] a1 by (simp add: algebra_simps)
qed

text \<open>
  Claim C4. An accumulator constructed with \<open>alpha = 0\<close>, after \<^verbatim>\<open>addValue\<close> for
  each element of a non-empty list in turn, returns from \<^verbatim>\<open>getAverage()\<close> the sum
  of the list divided by its length. This holds for the real and for the complex
  accumulator, as an equation of exact arithmetic.
\<close>

theorem cumulative_mean:
  assumes "xs \<noteq> []" and "zs \<noteq> []"
  shows "RealWeightedAccum_getAverage (fold RealWeightedAccum_addValue xs (RealWeightedAccum_ctor 0))
           = sum_list xs / real (length xs) \<and>
         ComplexWeightedAccum_getAverage
             (fold ComplexWeightedAccum_addValue zs (ComplexWeightedAccum_ctor 0))
           = sum_list zs / of_real (real (length zs))"
proof
  have "fold RealWeightedAccum_addValue xs (RealWeightedAccum_ctor 0) =
          \<lparr>r_sum = sum_list xs, r_count = length xs, r_alpha = 0\<rparr>"
    using real_fold_alpha0[of "RealWeightedAccum_ctor 0" xs]
    by (simp add: RealWeightedAccum_ctor_def)
  then show "RealWeightedAccum_getAverage (fold RealWeightedAccum_addValue xs (RealWeightedAccum_ctor 0))
           = sum_list xs / real (length xs)"
    using assms(1) by (simp add: RealWeightedAccum_getAverage_def)
next
  have "fold ComplexWeightedAccum_addValue zs (ComplexWeightedAccum_ctor 0) =
          \<lparr>c_sum = sum_list zs, c_count = length zs, c_alpha = 0\<rparr>"
    using complex_fold_alpha0[of "ComplexWeightedAccum_ctor 0" zs]
    by (simp add: ComplexWeightedAccum_ctor_def)
  then show "ComplexWeightedAccum_getAverage
             (fold ComplexWeightedAccum_addValue zs (ComplexWeightedAccum_ctor 0))
           = sum_list zs / of_real (real (length zs))"
    using assms(2) by (simp add: ComplexWeightedAccum_getAverage_def)
qed

theorem cumulative_mean_witness:
  "[1, 2, 6 :: real] \<noteq> [] \<and> [\<i>, 1 :: complex] \<noteq> [] \<and>
   RealWeightedAccum_getAverage
     (fold RealWeightedAccum_addValue [1, 2, 6] (RealWeightedAccum_ctor 0)) = 3 \<and>
   ComplexWeightedAccum_getAverage
     (fold ComplexWeightedAccum_addValue [\<i>, 1] (ComplexWeightedAccum_ctor 0)) = (1 + \<i>) / 2"
proof -
  have h1: "[1, 2, 6 :: real] \<noteq> []" and h2: "[\<i>, 1 :: complex] \<noteq> []" by simp_all
  from cumulative_mean[OF h1 h2] show ?thesis by simp
qed

lemma size_t_of_double_stuck:
  assumes "0 < a" "a \<le> 1"
  shows "size_t_of_double (1 + (1 - a) * real 1) = 1"
proof -
  have "\<lfloor>2 - a\<rfloor> = 1" using assms by (simp add: floor_eq_iff)
  then show ?thesis by (simp add: size_t_of_double_def algebra_simps)
qed

lemma count_stays_one:
  assumes "0 < r_alpha a" "r_alpha a \<le> 1" "r_count a = 1"
  shows "r_count (RealWeightedAccum_addValue x a) = 1"
  using size_t_of_double_stuck[OF assms(1,2)] assms(3)
  by (simp add: RealWeightedAccum_addValue_def)

text \<open>
  Claim C3. The claim wants \<open>count = 1 + (1 - alpha) * count\<close> with a real
  \<open>count\<close>. The accumulators of the program keep \<open>count\<close> in a \<^verbatim>\<open>size_t\<close>,
  so the fraction is lost at each \<^verbatim>\<open>addValue\<close>: with \<open>alpha = 1/2\<close> and the value
  1 added twice, both accumulators have \<open>count = 1\<close> and the average 3/2, where the
  accumulator of the specification has \<open>count = 3/2\<close> and the average 1. (By
  \<open>count_stays_one\<close>, in exact arithmetic the \<open>count\<close> never gets past 1 for any
  \<open>alpha\<close> above 0 and up to 1; in \<^verbatim>\<open>double\<close> arithmetic this needs
  \<open>2 - alpha\<close> to round below 2.)
\<close>

theorem count_truncated:
  "r_count (RealWeightedAccum_addValue 1 (RealWeightedAccum_addValue 1 (RealWeightedAccum_ctor (1 / 2)))) = 1 \<and>
   RealWeightedAccum_getAverage
     (RealWeightedAccum_addValue 1 (RealWeightedAccum_addValue 1 (RealWeightedAccum_ctor (1 / 2)))) = 3 / 2 \<and>
   c_count (ComplexWeightedAccum_addValue 1 (ComplexWeightedAccum_addValue 1 (ComplexWeightedAccum_ctor (1 / 2)))) = 1 \<and>
   ComplexWeightedAccum_getAverage
     (ComplexWeightedAccum_addValue 1 (ComplexWeightedAccum_addValue 1 (ComplexWeightedAccum_ctor (1 / 2)))) = 3 / 2 \<and>
   spec_count (spec_addValue (1 :: real) (spec_addValue 1 (spec_ctor (1 / 2)))) = 3 / 2 \<and>
   spec_getAverage (spec_addValue (1 :: real) (spec_addValue 1 (spec_ctor (1 / 2)))) = 1"
proof -
  have f1: "size_t_of_double 1 = 1" by (simp add: size_t_of_double_def)
  have f2: "size_t_of_double (3 / 2) = 1"
  proof -
    have "\<lfloor>3 / 2 :: real\<rfloor> = 1" by (simp add: floor_eq_iff)
    then show ?thesis by (simp add: size_t_of_double_def)
  qed
  show ?thesis
    by (simp add: RealWeightedAccum_addValue_def RealWeightedAccum_ctor_def
        RealWeightedAccum_getAverage_def ComplexWeightedAccum_addValue_def
        ComplexWeightedAccum_ctor_def ComplexWeightedAccum_getAverage_def
        spec_addValue_def spec_ctor_def spec_getAverage_def f1 f2)
qed

section \<open>Properties of the engine\<close>

lemma fold_upt_update:
  assumes "n \<le> length xs"
  shows "fold (\<lambda>i ys. ys[i := h i (ys ! i)]) [0..<n] xs =
           map (\<lambda>i. if i < n then h i (xs ! i) else xs ! i) [0..<length xs]"
  using assms
proof (induction n)
  case 0
  show ?case by (simp add: map_nth)
next
  case (Suc n)
  let ?ys = "map (\<lambda>i. if i < n then h i (xs ! i) else xs ! i) [0..<length xs]"
  have ih: "fold (\<lambda>i ys. ys[i := h i (ys ! i)]) [0..<n] xs = ?ys"
    using Suc by simp
  have n: "n < length xs" using Suc.prems by simp
  have "fold (\<lambda>i ys. ys[i := h i (ys ! i)]) [0..<Suc n] xs = ?ys[n := h n (?ys ! n)]"
    by (simp add: ih)
  also have "\<dots> = map (\<lambda>i. if i < Suc n then h i (xs ! i) else xs ! i) [0..<length xs]"
    using n by (intro nth_equalityI) (auto simp: nth_list_update less_Suc_eq)
  finally show ?case .
qed

lemma fold_upt_update_nth:
  assumes "n \<le> length xs" "i < length xs"
  shows "fold (\<lambda>i ys. ys[i := h i (ys ! i)]) [0..<n] xs ! i = (if i < n then h i (xs ! i) else xs ! i)"
  using assms by (simp add: fold_upt_update)

lemma fold_upt_update_length:
  assumes "n \<le> length xs"
  shows "length (fold (\<lambda>i ys. ys[i := h i (ys ! i)]) [0..<n] xs) = length xs"
  using assms by (simp add: fold_upt_update)

lemma fold_upt_set_nth:
  assumes "n \<le> length xs" "i < length xs"
  shows "fold (\<lambda>i ys. ys[i := v i]) [0..<n] xs ! i = (if i < n then v i else xs ! i)"
  using fold_upt_update_nth[OF assms, of "\<lambda>i y. v i"] by simp

lemma fold_upt_set_length:
  assumes "n \<le> length xs"
  shows "length (fold (\<lambda>i ys. ys[i := v i]) [0..<n] xs) = length xs"
  using fold_upt_update_length[OF assms, of "\<lambda>i y. v i"] by simp

lemma fold_pair_update:
  "fold (\<lambda>f (md, sd). (md[f := a f], sd[f := b f])) fs (md, sd) =
     (fold (\<lambda>f md. md[f := a f]) fs md, fold (\<lambda>f sd. sd[f := b f]) fs sd)"
  by (induction fs arbitrary: md sd) simp_all

lemma sum_list_upt: "(\<Sum>t\<leftarrow>[0..<n]. (v t :: real)) = (\<Sum>t<n. v t)"
  by (simp add: interv_sum_list_conv_sum_set_nat atLeast0LessThan)

lemma cuboid_plane:
  assumes "cuboid n nf nt xs" "c < n"
  shows "length (xs ! c) = nf"
  using assms by (auto simp: cuboid_def list_all_length)

lemma cuboid_row:
  assumes "cuboid n nf nt xs" "c < n" "f < nf"
  shows "length (xs ! c ! f) = nt"
  using assms by (auto simp: cuboid_def list_all_length)

lemma fold_upt_Suc: "fold F [0..<Suc n] x = F n (fold F [0..<n] x)"
  by simp

lemma replicate_as_map: "replicate n (0::real) = map (\<lambda>i. 0) [0..<n]"
  by (simp add: map_replicate_const)

lemma power_row_upto:
  assumes "n \<le> Time"
  shows "fold (\<lambda>pr (row, avg).
            let row1 = row[pr := row ! pr + v pr] in (row1, avg + row1 ! pr))
          [0..<n] (replicate Time 0, 0) =
         (map (\<lambda>i. if i < n then v i else (0::real)) [0..<Time], \<Sum>pr<n. v pr)"
  using assms
proof (induction n)
  case 0
  show ?case by (simp add: replicate_as_map)
next
  case (Suc n)
  then have ih: "fold (\<lambda>pr (row, avg).
            let row1 = row[pr := row ! pr + v pr] in (row1, avg + row1 ! pr))
          [0..<n] (replicate Time 0, 0) =
         (map (\<lambda>i. if i < n then v i else (0::real)) [0..<Time], \<Sum>pr<n. v pr)"
    and n: "n < Time" by simp_all
  have upd: "(map (\<lambda>i. if i < n then v i else 0) [0..<Time])
           [n := v n]
        = map (\<lambda>i. if i < Suc n then v i else 0) [0..<Time]"
    using n by (intro nth_equalityI) (auto simp: nth_list_update less_Suc_eq)
  show ?case
    unfolding fold_upt_Suc ih
    using n by (simp add: Let_def upd del: upt_Suc)
qed

lemma power_row_avg:
  "snd (power_row tfr Time chn frq) =
     (\<Sum>pr<Time. RealWeightedAccum_getAverage (powBuffer tfr ! chn ! frq ! pr))"
  unfolding power_row_def float_of_double_def
  using power_row_upto[of Time Time
      "\<lambda>pr. RealWeightedAccum_getAverage (powBuffer tfr ! chn ! frq ! pr)"]
  by simp

lemma dims_powBuffer:
  assumes "dims_ok tfr" "chn < length (powBuffer tfr)"
  shows "length (powBuffer tfr ! chn) = nat (nFreqs tfr)"
    and "frq < nat (nFreqs tfr) \<Longrightarrow> length (powBuffer tfr ! chn ! frq) = nat (nTimes tfr)"
  using assms cuboid_plane[of "length (powBuffer tfr)" "nat (nFreqs tfr)" "nat (nTimes tfr)"
      "powBuffer tfr" chn]
    cuboid_row[of "length (powBuffer tfr)" "nat (nFreqs tfr)" "nat (nTimes tfr)"
      "powBuffer tfr" chn frq]
  by (simp_all add: dims_ok_def)

lemma dims_pxys:
  assumes "dims_ok tfr" "comb < length (pxys tfr)"
  shows "length (pxys tfr ! comb) = nat (nFreqs tfr)"
    and "f < nat (nFreqs tfr) \<Longrightarrow> length (pxys tfr ! comb ! f) = nat (nTimes tfr)"
  using assms cuboid_plane[of "length (pxys tfr)" "nat (nFreqs tfr)" "nat (nTimes tfr)"
      "pxys tfr" comb]
    cuboid_row[of "length (pxys tfr)" "nat (nFreqs tfr)" "nat (nTimes tfr)"
      "pxys tfr" comb f]
  by (simp_all add: dims_ok_def)

lemma dims_first:
  assumes "dims_ok tfr"
  shows "length (powBuffer tfr ! 0) = nat (nFreqs tfr)"
    and "length (powBuffer tfr ! 0 ! 0) = nat (nTimes tfr)"
proof -
  from assms have c: "0 < length (powBuffer tfr)" and f: "0 < nat (nFreqs tfr)"
    by (simp_all add: dims_ok_def)
  show "length (powBuffer tfr ! 0) = nat (nFreqs tfr)"
    by (rule dims_powBuffer(1)[OF assms c])
  show "length (powBuffer tfr ! 0 ! 0) = nat (nTimes tfr)"
    by (rule dims_powBuffer(2)[OF assms c f])
qed

lemma getPowerForChannels_fst:
  assumes d: "dims_ok tfr"
  shows "fst (getPowerForChannels tfr) =
           map (\<lambda>chn. map (\<lambda>frq. snd (power_row tfr (nat (nTimes tfr)) chn frq)
                                   / real (nat (nTimes tfr)))
                        [0..<nat (nFreqs tfr)])
               [0..<length (powBuffer tfr)]"
proof -
  let ?C = "length (powBuffer tfr)" and ?F = "nat (nFreqs tfr)" and ?T = "nat (nTimes tfr)"
  let ?val = "\<lambda>chn frq. snd (power_row tfr ?T chn frq) / real ?T"
  let ?h = "\<lambda>chn row. fold (\<lambda>frq Pc. Pc[frq := ?val chn frq]) [0..<?F] row"
  have row: "?h chn (replicate ?F 0) = map (?val chn) [0..<?F]" for chn
    using fold_upt_update[of ?F "replicate ?F (0::real)" "\<lambda>frq y. ?val chn frq"]
    by simp
  have "fst (getPowerForChannels tfr) =
          fold (\<lambda>chn P. P[chn := ?h chn (P ! chn)]) [0..<?C] (replicate ?C (replicate ?F 0))"
    by (simp add: getPowerForChannels_def dims_first[OF d] Let_def)
  also have "\<dots> = map (\<lambda>chn. ?h chn (replicate ?F 0)) [0..<?C]"
    using fold_upt_update[of ?C "replicate ?C (replicate ?F (0::real))" ?h]
    by simp
  finally show ?thesis by (simp only: row)
qed

text \<open>
  Claim C10. On an engine with the constructor's dimensions, \<^verbatim>\<open>getPowerForChannels\<close>
  returns one row per channel and one entry per frequency; the entry for channel
  \<open>chn\<close> and frequency \<open>frq\<close> is the sum over the time bins of
  \<^verbatim>\<open>getAverage()\<close> of the power accumulators, divided by \<^verbatim>\<open>nTimes\<close>. The
  engine after the call is the engine before it (so the accumulators, the spectrum
  buffer and the wavelet array are unchanged), and a second call returns the same.
\<close>

theorem getPowerForChannels_pure:
  assumes d: "dims_ok tfr" and chn: "chn < length (powBuffer tfr)" and frq: "frq < nat (nFreqs tfr)"
  shows "case getPowerForChannels tfr of
           (res, tfr1) \<Rightarrow>
             length res = length (powBuffer tfr) \<and>
             length (res ! chn) = nat (nFreqs tfr) \<and>
             res ! chn ! frq =
               (\<Sum>pr<nat (nTimes tfr). RealWeightedAccum_getAverage (powBuffer tfr ! chn ! frq ! pr))
                 / real_of_int (nTimes tfr) \<and>
             tfr1 = tfr \<and>
             powBuffer tfr1 = powBuffer tfr \<and> pxys tfr1 = pxys tfr \<and>
             spectrumBuffer tfr1 = spectrumBuffer tfr \<and> waveletArray tfr1 = waveletArray tfr \<and>
             getPowerForChannels tfr1 = (res, tfr1)"
proof -
  obtain res tfr1 where r: "getPowerForChannels tfr = (res, tfr1)"
    by (cases "getPowerForChannels tfr")
  have same: "tfr1 = tfr"
    using r by (simp add: getPowerForChannels_def Let_def)
  have res: "res = map (\<lambda>chn. map (\<lambda>frq. snd (power_row tfr (nat (nTimes tfr)) chn frq)
                                   / real (nat (nTimes tfr)))
                        [0..<nat (nFreqs tfr)])
               [0..<length (powBuffer tfr)]"
    using getPowerForChannels_fst[OF d] r by simp
  have t: "real (nat (nTimes tfr)) = real_of_int (nTimes tfr)"
    using d by (simp add: dims_ok_def)
  have len: "length res = length (powBuffer tfr)" by (simp add: res)
  have len2: "length (res ! chn) = nat (nFreqs tfr)" using chn by (simp add: res)
  have val: "res ! chn ! frq =
               (\<Sum>pr<nat (nTimes tfr). RealWeightedAccum_getAverage (powBuffer tfr ! chn ! frq ! pr))
                 / real_of_int (nTimes tfr)"
    using chn frq by (simp add: res power_row_avg t)
  from len len2 val same r show ?thesis by simp
qed

lemma variance_form:
  fixes c :: "nat \<Rightarrow> real"
  assumes "0 < n"
  shows "((\<Sum>t<n. c t * c t) - (\<Sum>t<n. c t) * (\<Sum>t<n. c t) / real n) / real n =
         (\<Sum>t<n. (c t - (\<Sum>t<n. c t) / real n)\<^sup>2) / real n"
proof -
  let ?S = "\<Sum>t<n. c t" and ?m = "(\<Sum>t<n. c t) / real n"
  have "(\<Sum>t<n. (c t - ?m)\<^sup>2) = (\<Sum>t<n. c t * c t - 2 * ?m * c t + ?m * ?m)"
    by (rule sum.cong) (simp_all add: power2_eq_square algebra_simps)
  also have "\<dots> = (\<Sum>t<n. c t * c t) - 2 * ?m * ?S + real n * (?m * ?m)"
    by (simp add: sum.distrib sum_subtractf sum_distrib_left)
  also have "\<dots> = (\<Sum>t<n. c t * c t) - ?S * ?S / real n"
    using assms by (simp add: field_simps)
  finally show ?thesis by simp
qed

lemma cross_spectra_nth:
  assumes d: "dims_ok tfr" and c: "comb < length (pxys tfr)"
    and f: "f < nat (nFreqs tfr)" and t: "t < nat (nTimes tfr)"
  shows "cross_spectra tfr itX itY comb ! comb ! f ! t =
           ComplexWeightedAccum_addValue (crss tfr itX itY f t) (pxys tfr ! comb ! f ! t)"
proof -
  let ?F = "nat (nFreqs tfr)" and ?T = "nat (nTimes tfr)"
  let ?G = "\<lambda>f row. fold (\<lambda>t row. row[t := ComplexWeightedAccum_addValue (crss tfr itX itY f t) (row ! t)])
                   [0..<?T] row"
  have lp: "length (pxys tfr ! comb) = ?F" by (rule dims_pxys(1)[OF d c])
  have lr: "length (pxys tfr ! comb ! f) = ?T" by (rule dims_pxys(2)[OF d c f])
  have "cross_spectra tfr itX itY comb ! comb =
          fold (\<lambda>f plane. plane[f := ?G f (plane ! f)]) [0..<?F] (pxys tfr ! comb)"
    using c by (simp add: cross_spectra_def)
  then have "cross_spectra tfr itX itY comb ! comb ! f = ?G f (pxys tfr ! comb ! f)"
    using fold_upt_update_nth[of ?F "pxys tfr ! comb" f ?G] lp f by simp
  then show ?thesis
    using fold_upt_update_nth[of ?T "pxys tfr ! comb ! f" t
        "\<lambda>t a. ComplexWeightedAccum_addValue (crss tfr itX itY f t) a"] lr t
    by simp
qed

lemma example_dims: "dims_ok example_tfr"
  by (simp add: dims_ok_def cuboid_def example_tfr_def)

theorem getPowerForChannels_pure_witness:
  "dims_ok example_tfr \<and> (1::nat) < length (powBuffer example_tfr) \<and>
   (0::nat) < nat (nFreqs example_tfr) \<and>
   fst (getPowerForChannels example_tfr) ! 1 ! 0 = 5 / 2 \<and>
   snd (getPowerForChannels example_tfr) = example_tfr \<and>
   getPowerForChannels (snd (getPowerForChannels example_tfr)) = getPowerForChannels example_tfr"
proof -
  have h2: "(1::nat) < length (powBuffer example_tfr)"
    and h3: "(0::nat) < nat (nFreqs example_tfr)"
    by (simp_all add: example_tfr_def)
  have s: "(\<Sum>pr<nat (nTimes example_tfr).
              RealWeightedAccum_getAverage (powBuffer example_tfr ! 1 ! 0 ! pr))
             / real_of_int (nTimes example_tfr) = 5 / 2"
    by (simp add: example_tfr_def RealWeightedAccum_getAverage_def lessThan_Suc
        eval_nat_numeral)
  from getPowerForChannels_pure[OF example_dims h2 h3] s
  have "fst (getPowerForChannels example_tfr) ! 1 ! 0 = 5 / 2 \<and>
        snd (getPowerForChannels example_tfr) = example_tfr \<and>
        getPowerForChannels (snd (getPowerForChannels example_tfr)) = getPowerForChannels example_tfr"
    by (auto simp: split_beta)
  with example_dims h2 h3 show ?thesis by blast
qed

subsection \<open>Coherence\<close>



lemma singleCoherence_finite:
  assumes "pxx \<noteq> 0" "pyy \<noteq> 0"
  shows "singleCoherence pxx pyy pxy = Num (std_norm pxy / (pxx * pyy))"
  using assms by (simp add: singleCoherence_def)


lemma RealAccum_fold_Num:
  assumes "ra_sum c = Num s" "ra_sumSquares c = Num q" "\<forall>t\<in>set ts. v t = Num (w t)"
  shows "fold (\<lambda>t coh. RealAccum_addValue (v t) coh) ts c =
     \<lparr>ra_count = ra_count c + length ts,
      ra_sum = Num (s + (\<Sum>t\<leftarrow>ts. w t)),
      ra_sumSquares = Num (q + (\<Sum>t\<leftarrow>ts. w t * w t))\<rparr>"
  using assms
proof (induction ts arbitrary: c s q)
  case Nil
  then show ?case by simp
next
  case (Cons t ts)
  let ?c1 = "RealAccum_addValue (v t) c"
  have c1: "ra_sum ?c1 = Num (s + w t)" "ra_sumSquares ?c1 = Num (q + w t * w t)"
    "ra_count ?c1 = Suc (ra_count c)"
    using Cons.prems by (simp_all add: RealAccum_addValue_def)
  have rest: "\<forall>t\<in>set ts. v t = Num (w t)" using Cons.prems(3) by simp
  show ?case using Cons.IH[OF c1(1,2) rest] c1(3) by (simp add: algebra_simps)
qed

lemma dbl_add_NaN_left: "dbl_add NaN b = NaN"
  by simp





lemma getMeanCoherence_parts:
  "getMeanCoherence tfr itX itY meanDest comb =
     (let tfr1 = tfr\<lparr>pxys := cross_spectra tfr itX itY comb\<rparr>
      in (tfr1,
          fold (\<lambda>f md. md[f := RealAccum_getAverage (coh_accum tfr1 itX itY comb f)])
            [0..<nat (nFreqs tfr)] meanDest,
          fold (\<lambda>f sd. sd[f := (if nTimes tfr < 2 then Num 0
                                else dbl_sqrt
                                       (dbl_div
                                          (dbl_mul (RealAccum_getVariance (coh_accum tfr1 itX itY comb f))
                                             (Num (real_of_int (nTimes tfr))))
                                          (Num (real_of_int (nTimes tfr - 1)))))])
            [0..<nat (nFreqs tfr)] (replicate (nat (nFreqs tfr)) (Num 0))))"
  unfolding getMeanCoherence_def Let_def
  by (simp add: fold_pair_update del: upt_Suc cong: if_cong)

lemma coh_accum_Num:
  assumes "\<forall>t<nat (nTimes tfr). coherence_at tfr itX itY comb f t = Num (w t)"
  shows "coh_accum tfr itX itY comb f =
     \<lparr>ra_count = nat (nTimes tfr),
      ra_sum = Num (\<Sum>t<nat (nTimes tfr). w t),
      ra_sumSquares = Num (\<Sum>t<nat (nTimes tfr). w t * w t)\<rparr>"
proof -
  have "\<forall>t\<in>set [0..<nat (nTimes tfr)]. coherence_at tfr itX itY comb f t = Num (w t)"
    using assms by simp
  from RealAccum_fold_Num[of RealAccum_ctor 0 0 "[0..<nat (nTimes tfr)]"
      "coherence_at tfr itX itY comb f" w, OF _ _ this]
  show ?thesis
    unfolding coh_accum_def
    by (simp add: RealAccum_ctor_def sum_list_upt del: upt_Suc)
qed


text \<open>
  Claim C5. On an engine with the constructor's dimensions, for channels, pair and
  frequency within them, where the average power of both channels is not zero in any
  time bin of the frequency and the counts of the pair's accumulators can be converted:
  \<^verbatim>\<open>getMeanCoherence\<close> has added to every cross-spectrum accumulator (\<open>comb\<close>,
  \<open>f\<close>, \<open>t\<close>) the product of the spectrum sample of \<open>itX\<close> with the conjugate of
  that of \<open>itY\<close>; \<^verbatim>\<open>meanDest[f]\<close> is the number that is the mean over the time
  bins of \<open>|E[Pxy]|\<^sup>2 / (E[Pxx] * E[Pyy])\<close>, taken from the cross-spectrum accumulators
  after that addition and the power accumulators of the two channels; and
  \<^verbatim>\<open>stdDest[f]\<close> is 0 when \<^verbatim>\<open>nTimes < 2\<close>, else the square root of
  \<open>Var * nTimes / (nTimes - 1)\<close>, \<open>Var\<close> the mean square deviation of these values
  from their mean.
\<close>

theorem getMeanCoherence_result:
  assumes d: "dims_ok tfr"
    and x: "itX < length (powBuffer tfr)" and y: "itY < length (powBuffer tfr)"
    and c: "comb < length (pxys tfr)"
    and m: "nat (nFreqs tfr) \<le> length meanDest"
    and f: "f < nat (nFreqs tfr)"
    and nz: "\<forall>t<nat (nTimes tfr).
               RealWeightedAccum_getAverage (powBuffer tfr ! itX ! f ! t) \<noteq> 0 \<and>
               RealWeightedAccum_getAverage (powBuffer tfr ! itY ! f ! t) \<noteq> 0"
    and def: "list_all (list_all ComplexWeightedAccum_addValue_defined) (pxys tfr ! comb)"
  shows "case getMeanCoherence tfr itX itY meanDest comb of
           (tfr1, meanDest1, stdDest1) \<Rightarrow>
             (\<forall>t<nat (nTimes tfr).
                pxys tfr1 ! comb ! f ! t =
                  ComplexWeightedAccum_addValue
                    (spectrumBuffer tfr ! itX ! f ! t * cnj (spectrumBuffer tfr ! itY ! f ! t))
                    (pxys tfr ! comb ! f ! t)) \<and>
             (let coh = (\<lambda>t. std_norm (ComplexWeightedAccum_getAverage (pxys tfr1 ! comb ! f ! t))
                            / (RealWeightedAccum_getAverage (powBuffer tfr ! itX ! f ! t)
                               * RealWeightedAccum_getAverage (powBuffer tfr ! itY ! f ! t)));
                  n = real_of_int (nTimes tfr);
                  mean = (\<Sum>t<nat (nTimes tfr). coh t) / n;
                  var = (\<Sum>t<nat (nTimes tfr). (coh t - mean)\<^sup>2) / n
              in meanDest1 ! f = Num mean \<and>
                 stdDest1 ! f = (if nTimes tfr < 2 then Num 0 else Num (sqrt (var * n / (n - 1))))) \<and>
             length meanDest1 = length meanDest \<and>
             powBuffer tfr1 = powBuffer tfr \<and> spectrumBuffer tfr1 = spectrumBuffer tfr"
proof -
  let ?F = "nat (nFreqs tfr)" and ?T = "nat (nTimes tfr)"
  let ?tfr1 = "tfr\<lparr>pxys := cross_spectra tfr itX itY comb\<rparr>"
  let ?std = "\<lambda>f. if nTimes tfr < 2 then Num 0
                   else dbl_sqrt
                          (dbl_div
                             (dbl_mul (RealAccum_getVariance (coh_accum ?tfr1 itX itY comb f))
                                (Num (real_of_int (nTimes tfr))))
                             (Num (real_of_int (nTimes tfr - 1))))"
  let ?md = "fold (\<lambda>f md. md[f := RealAccum_getAverage (coh_accum ?tfr1 itX itY comb f)])
            [0..<?F] meanDest"
  let ?sd = "fold (\<lambda>f sd. sd[f := ?std f]) [0..<?F] (replicate ?F (Num 0))"
  let ?coh = "\<lambda>t. std_norm (ComplexWeightedAccum_getAverage (pxys ?tfr1 ! comb ! f ! t))
                            / (RealWeightedAccum_getAverage (powBuffer tfr ! itX ! f ! t)
                               * RealWeightedAccum_getAverage (powBuffer tfr ! itY ! f ! t))"
  let ?n = "real_of_int (nTimes tfr)"
  let ?mean = "(\<Sum>t<?T. ?coh t) / ?n"
  let ?var = "(\<Sum>t<?T. (?coh t - ?mean)\<^sup>2) / ?n"
  have res: "getMeanCoherence tfr itX itY meanDest comb = (?tfr1, ?md, ?sd)"
    by (simp add: getMeanCoherence_parts Let_def)
  from d have T: "0 < ?T" and n: "real ?T = ?n" and n0: "?n \<noteq> 0"
    by (simp_all add: dims_ok_def)
  have cross: "\<forall>t<?T. pxys ?tfr1 ! comb ! f ! t =
                  ComplexWeightedAccum_addValue
                    (spectrumBuffer tfr ! itX ! f ! t * cnj (spectrumBuffer tfr ! itY ! f ! t))
                    (pxys tfr ! comb ! f ! t)"
    using cross_spectra_nth[OF d c f, of _ itX itY] by (simp add: crss_def)
  have cat: "\<forall>t<nat (nTimes ?tfr1). coherence_at ?tfr1 itX itY comb f t = Num (?coh t)"
    using nz by (simp add: coherence_at_def singleCoherence_finite)
  have acc: "coh_accum ?tfr1 itX itY comb f =
     \<lparr>ra_count = ?T, ra_sum = Num (\<Sum>t<?T. ?coh t),
      ra_sumSquares = Num (\<Sum>t<?T. ?coh t * ?coh t)\<rparr>"
    using coh_accum_Num[OF cat] by simp
  have avg: "RealAccum_getAverage (coh_accum ?tfr1 itX itY comb f) = Num ?mean"
    unfolding acc using T n n0 by (simp add: RealAccum_getAverage_def)
  have var: "RealAccum_getVariance (coh_accum ?tfr1 itX itY comb f) = Num ?var"
    unfolding acc using T variance_form[OF T, of ?coh] n n0
    by (simp add: RealAccum_getVariance_def dbl_sub_def)
  have npos: "0 < ?n" using T n by simp
  have ss: "0 \<le> (\<Sum>t<?T. (?coh t - ?mean)\<^sup>2)"
    by (rule sum_nonneg) simp
  have var0: "0 \<le> ?var"
    using divide_nonneg_nonneg[OF ss less_imp_le[OF npos]] .
  have std: "?std f = (if nTimes tfr < 2 then Num 0 else Num (sqrt (?var * ?n / (?n - 1))))"
  proof (cases "nTimes tfr < 2")
    case True
    then show ?thesis by simp
  next
    case False
    then have n1: "0 < ?n - 1" by simp
    have p: "0 \<le> ?var * ?n"
      using mult_nonneg_nonneg[OF var0 less_imp_le[OF npos]] .
    have "0 \<le> ?var * ?n / (?n - 1)"
      using divide_nonneg_nonneg[OF p less_imp_le[OF n1]] .
    then have "dbl_sqrt (Num (?var * ?n / (?n - 1))) = Num (sqrt (?var * ?n / (?n - 1)))"
      by simp
    moreover have "dbl_div (dbl_mul (Num ?var) (Num ?n)) (Num (real_of_int (nTimes tfr - 1)))
          = Num (?var * ?n / (?n - 1))"
      using n1 by simp
    ultimately show ?thesis using False by (simp only: var if_False)
  qed
  have md: "?md ! f = Num ?mean"
    using fold_upt_set_nth[of ?F meanDest f
        "\<lambda>f. RealAccum_getAverage (coh_accum ?tfr1 itX itY comb f)"] m f avg
    by simp
  have sd: "?sd ! f = (if nTimes tfr < 2 then Num 0 else Num (sqrt (?var * ?n / (?n - 1))))"
    using fold_upt_set_nth[of ?F "replicate ?F (Num 0)" f ?std] f std
    by simp
  have len: "length ?md = length meanDest"
    using fold_upt_set_length[of ?F meanDest] m by simp
  show ?thesis
    unfolding res using cross md sd len by (simp add: Let_def)
qed

lemma example3_dims: "dims_ok example_tfr3"
  by (simp add: dims_ok_def cuboid_def example_tfr3_def example_tfr_def)

theorem getMeanCoherence_result_witness:
  "dims_ok example_tfr3 \<and> (0::nat) < length (powBuffer example_tfr3) \<and>
   (1::nat) < length (powBuffer example_tfr3) \<and> (0::nat) < length (pxys example_tfr3) \<and>
   nat (nFreqs example_tfr3) \<le> length [Num 0] \<and> (0::nat) < nat (nFreqs example_tfr3) \<and>
   RealWeightedAccum_getAverage (powBuffer example_tfr3 ! 0 ! 0 ! 0) \<noteq> 0 \<and>
   RealWeightedAccum_getAverage (powBuffer example_tfr3 ! 0 ! 0 ! 1) \<noteq> 0 \<and>
   RealWeightedAccum_getAverage (powBuffer example_tfr3 ! 0 ! 0 ! 2) \<noteq> 0 \<and>
   RealWeightedAccum_getAverage (powBuffer example_tfr3 ! 1 ! 0 ! 0) \<noteq> 0 \<and>
   RealWeightedAccum_getAverage (powBuffer example_tfr3 ! 1 ! 0 ! 1) \<noteq> 0 \<and>
   RealWeightedAccum_getAverage (powBuffer example_tfr3 ! 1 ! 0 ! 2) \<noteq> 0 \<and>
   list_all (list_all ComplexWeightedAccum_addValue_defined) (pxys example_tfr3 ! 0) \<and>
   (\<exists>tfr1 meanDest1 stdDest1.
      getMeanCoherence example_tfr3 0 1 [Num 0] 0 = (tfr1, meanDest1, stdDest1) \<and>
      pxys tfr1 ! 0 ! 0 ! 0 = \<lparr>c_sum = 0, c_count = 1, c_alpha = 0\<rparr> \<and>
      pxys tfr1 ! 0 ! 0 ! 1 = \<lparr>c_sum = (1 + \<i>) / 2, c_count = 1, c_alpha = 0\<rparr> \<and>
      pxys tfr1 ! 0 ! 0 ! 2 = \<lparr>c_sum = 1, c_count = 1, c_alpha = 0\<rparr> \<and>
      meanDest1 ! 0 = Num (1 / 2) \<and> stdDest1 ! 0 = Num (1 / 2))"
proof -
  have h1: "(0::nat) < length (powBuffer example_tfr3)"
    and h2: "(1::nat) < length (powBuffer example_tfr3)"
    and h3: "(0::nat) < length (pxys example_tfr3)"
    and h4: "nat (nFreqs example_tfr3) \<le> length [Num 0]"
    and h5: "(0::nat) < nat (nFreqs example_tfr3)"
    by (simp_all add: example_tfr3_def example_tfr_def)
  have pw: "RealWeightedAccum_getAverage (powBuffer example_tfr3 ! 0 ! 0 ! 0) = 1"
    "RealWeightedAccum_getAverage (powBuffer example_tfr3 ! 0 ! 0 ! 1) = 1"
    "RealWeightedAccum_getAverage (powBuffer example_tfr3 ! 0 ! 0 ! 2) = 1"
    "RealWeightedAccum_getAverage (powBuffer example_tfr3 ! 1 ! 0 ! 0) = 1"
    "RealWeightedAccum_getAverage (powBuffer example_tfr3 ! 1 ! 0 ! 1) = 1"
    "RealWeightedAccum_getAverage (powBuffer example_tfr3 ! 1 ! 0 ! 2) = 1"
    by (simp_all add: example_tfr3_def example_tfr_def RealWeightedAccum_getAverage_def)
  have T: "nat (nTimes example_tfr3) = 3" "nTimes example_tfr3 = 3"
    by (simp_all add: example_tfr3_def example_tfr_def)
  have three: "t < 3 \<longleftrightarrow> t = 0 \<or> t = 1 \<or> t = 2" for t :: nat by auto
  have h6: "\<forall>t<nat (nTimes example_tfr3).
               RealWeightedAccum_getAverage (powBuffer example_tfr3 ! 0 ! 0 ! t) \<noteq> 0 \<and>
               RealWeightedAccum_getAverage (powBuffer example_tfr3 ! 1 ! 0 ! t) \<noteq> 0"
    using pw by (auto simp: T three)
  have h7: "list_all (list_all ComplexWeightedAccum_addValue_defined) (pxys example_tfr3 ! 0)"
    by (simp add: example_tfr3_def example_tfr_def ComplexWeightedAccum_addValue_defined_def
        ComplexWeightedAccum_ctor_def size_t_defined_def)
  obtain tfr1 meanDest1 stdDest1 where
    r: "getMeanCoherence example_tfr3 0 1 [Num 0] 0 = (tfr1, meanDest1, stdDest1)"
    by (cases "getMeanCoherence example_tfr3 0 1 [Num 0] 0") auto
  note inst = getMeanCoherence_result[OF example3_dims h1 h2 h3 h4 h5 h6 h7, unfolded r, simplified]
  have one: "size_t_of_double 1 = 1" by (simp add: size_t_of_double_def)
  from inst have cross: "\<And>t. t < 3 \<Longrightarrow> pxys tfr1 ! 0 ! 0 ! t =
                  ComplexWeightedAccum_addValue
                    (spectrumBuffer example_tfr3 ! 0 ! 0 ! t * cnj (spectrumBuffer example_tfr3 ! Suc 0 ! 0 ! t))
                    (pxys example_tfr3 ! 0 ! 0 ! t)"
    by (simp add: T)
  have p0: "pxys tfr1 ! 0 ! 0 ! 0 = \<lparr>c_sum = 0, c_count = 1, c_alpha = 0\<rparr>"
    using cross[of 0]
    by (simp add: example_tfr3_def example_tfr_def ComplexWeightedAccum_addValue_def
        ComplexWeightedAccum_ctor_def one)
  have p1: "pxys tfr1 ! 0 ! 0 ! 1 = \<lparr>c_sum = (1 + \<i>) / 2, c_count = 1, c_alpha = 0\<rparr>"
    using cross[of 1]
    by (simp add: example_tfr3_def example_tfr_def ComplexWeightedAccum_addValue_def
        ComplexWeightedAccum_ctor_def one)
  have p2: "pxys tfr1 ! 0 ! 0 ! 2 = \<lparr>c_sum = 1, c_count = 1, c_alpha = 0\<rparr>"
    using cross[of 2]
    by (simp add: example_tfr3_def example_tfr_def ComplexWeightedAccum_addValue_def
        ComplexWeightedAccum_ctor_def one)
  have n0: "std_norm (ComplexWeightedAccum_getAverage (pxys tfr1 ! 0 ! 0 ! 0)) = 0"
    unfolding p0 by (simp add: std_norm_def ComplexWeightedAccum_getAverage_def)
  have n1: "std_norm (ComplexWeightedAccum_getAverage (pxys tfr1 ! 0 ! 0 ! Suc 0)) = 1 / 2"
    using p1 by (simp add: std_norm_def ComplexWeightedAccum_getAverage_def)
  have n2: "std_norm (ComplexWeightedAccum_getAverage (pxys tfr1 ! 0 ! 0 ! 2)) = 1"
    unfolding p2 by (simp add: std_norm_def ComplexWeightedAccum_getAverage_def)
  have lt3: "{..<3::nat} = {0, Suc 0, 2}" by auto
  have pw': "RealWeightedAccum_getAverage (powBuffer example_tfr3 ! 0 ! 0 ! Suc 0) = 1"
    "RealWeightedAccum_getAverage (powBuffer example_tfr3 ! Suc 0 ! 0 ! 0) = 1"
    "RealWeightedAccum_getAverage (powBuffer example_tfr3 ! Suc 0 ! 0 ! Suc 0) = 1"
    "RealWeightedAccum_getAverage (powBuffer example_tfr3 ! Suc 0 ! 0 ! 2) = 1"
    using pw by simp_all
  have sq: "sqrt (1 / 4) = 1 / 2"
    by (simp add: real_sqrt_divide)
  from inst have "meanDest1 ! 0 = Num (1 / 2) \<and> stdDest1 ! 0 = Num (1 / 2)"
    by (simp add: T Let_def lt3 n0 n1 n2 pw pw' power2_eq_square sq)
  with r p0 p1 p2 example3_dims h1 h2 h3 h4 h5 h7 pw show ?thesis by simp
qed

subsection \<open>Zero power\<close>















end
